theory Spec2Isabelle
  imports
    Main
    "HOL-Library.Word"
    "HOL-Library.AList"
    "HOL-Library.Char_ord"
    "HOL-Library.List_Lexorder"
begin

section \<open>Common types\<close>

text \<open>
  A \<^verbatim>\<open>time.Time\<close> is used by the program only through \<^verbatim>\<open>After\<close>, \<^verbatim>\<open>Before\<close> and
  \<^verbatim>\<open>Equal\<close>, which compare instants: an instant is an integer (nanoseconds on the
  time line), \<^verbatim>\<open>t.After(u)\<close> is \<open>u < t\<close>, \<^verbatim>\<open>t.Before(u)\<close> is \<open>t < u\<close> and
  \<^verbatim>\<open>t.Equal(u)\<close> is \<open>t = u\<close>. The clock reading \<^verbatim>\<open>time.Now()\<close> is a parameter
  \<open>now\<close> of the operation that reads it. A value of type \<^verbatim>\<open>interface{}\<close> is a value of
  the type parameter \<open>'v\<close>. Go's \<^verbatim>\<open>int64\<close> is a 64-bit word, read as two's complement.
\<close>

type_synonym time = int

type_synonym int64 = "64 word"

datatype error = CreateDirFailed | OpenFailed | DecodeFailed | PersistFailed

section \<open>The bitemporal store (db_engine.go)\<close>

record 'v TemporalRecord =
  Key :: string
  Value :: 'v
  ValidTimeStart :: time
  ValidTimeEnd :: time
  TransactionTime :: time
  Metadata :: "(string \<times> 'v) list option"

record 'v DBEngine =
  data :: "string \<rightharpoonup> 'v TemporalRecord list"
  dataDir :: string

text \<open>
  The file system is outside the model. What \<^verbatim>\<open>persistData\<close> returns is the parameter
  \<open>io\<close> of the operation that calls it (\<open>None\<close> is \<^verbatim>\<open>nil\<close>); \<^verbatim>\<open>persistData\<close> does not
  change the engine. What \<^verbatim>\<open>loadData\<close> finds is the parameter \<open>file\<close>: \<open>None\<close> when
  the data file does not exist, an error when it cannot be opened or decoded, and the
  decoded mapping otherwise.
\<close>

definition persistData :: "'v DBEngine \<Rightarrow> error option \<Rightarrow> error option" where
  "persistData db io = io"

definition loadData ::
  "'v DBEngine \<Rightarrow> (error + (string \<rightharpoonup> 'v TemporalRecord list)) option
     \<Rightarrow> error option \<times> 'v DBEngine" where
  "loadData db file =
     (case file of
        None \<Rightarrow> (None, db)
      | Some (Inl e) \<Rightarrow> (Some e, db)
      | Some (Inr m) \<Rightarrow> (None, db\<lparr>data := data db ++ m\<rparr>))"

definition NewDBEngine ::
  "string \<Rightarrow> error option \<Rightarrow> (error + (string \<rightharpoonup> 'v TemporalRecord list)) option
     \<Rightarrow> error + 'v DBEngine" where
  "NewDBEngine dir mkdir file =
     (case mkdir of
        Some e \<Rightarrow> Inl e
      | None \<Rightarrow>
          (let db = \<lparr>data = Map.empty, dataDir = dir\<rparr> in
           case loadData db file of
             (Some e, _) \<Rightarrow> Inl e
           | (None, db') \<Rightarrow> Inr db'))"

text \<open>
  \<^verbatim>\<open>Insert\<close> builds the record, appends it to the key's slice (\<^verbatim>\<open>db.data[key]\<close> of a
  missing key is the nil slice, so the append starts a new history) and returns what
  \<^verbatim>\<open>persistData\<close> returns. The append has happened whatever \<^verbatim>\<open>persistData\<close> says.
\<close>

definition Insert ::
  "'v DBEngine \<Rightarrow> time \<Rightarrow> error option \<Rightarrow> string \<Rightarrow> 'v \<Rightarrow> time \<Rightarrow> time
     \<Rightarrow> error option \<times> 'v DBEngine" where
  "Insert db now io key val validStart validEnd =
     (let record = \<lparr>Key = key, Value = val, ValidTimeStart = validStart,
                     ValidTimeEnd = validEnd, TransactionTime = now, Metadata = None\<rparr>;
          old = (case data db key of None \<Rightarrow> [] | Some records \<Rightarrow> records);
          db' = db\<lparr>data := (data db)(key \<mapsto> old @ [record])\<rparr>
      in (persistData db' io, db'))"

text \<open>
  The loop of \<^verbatim>\<open>QueryTemporal\<close>: \<open>scan records n asOf validTime\<close> runs the loop body for
  \<open>i = n - 1\<close> down to \<open>0\<close> and gives the record at which the loop returns, \<open>None\<close>
  when the loop runs to its end.
\<close>

fun scan :: "'v TemporalRecord list \<Rightarrow> nat \<Rightarrow> time \<Rightarrow> time \<Rightarrow> 'v TemporalRecord option" where
  "scan records 0 asOfTime validTime = None"
| "scan records (Suc i) asOfTime validTime =
     (let rec = records ! i in
      if asOfTime < TransactionTime rec then scan records i asOfTime validTime
      else if ValidTimeStart rec < validTime \<and> validTime < ValidTimeEnd rec then Some rec
      else scan records i asOfTime validTime)"

text \<open>The record \<^verbatim>\<open>QueryTemporal\<close> answers from, if any.\<close>

definition QueryTemporal_record ::
  "'v DBEngine \<Rightarrow> string \<Rightarrow> time \<Rightarrow> time \<Rightarrow> 'v TemporalRecord option" where
  "QueryTemporal_record db key asOfTime validTime =
     (case data db key of
        None \<Rightarrow> None
      | Some records \<Rightarrow> scan records (length records) asOfTime validTime)"

text \<open>
  The result pair \<^verbatim>\<open>(value, found)\<close> is an option: \<open>None\<close> is \<^verbatim>\<open>(nil, false)\<close> and
  \<open>Some v\<close> is \<^verbatim>\<open>(v, true)\<close>.
\<close>

definition QueryTemporal :: "'v DBEngine \<Rightarrow> string \<Rightarrow> time \<Rightarrow> time \<Rightarrow> 'v option" where
  "QueryTemporal db key asOfTime validTime =
     map_option TemporalRecord.Value (QueryTemporal_record db key asOfTime validTime)"

definition QueryCurrent :: "'v DBEngine \<Rightarrow> time \<Rightarrow> time \<Rightarrow> string \<Rightarrow> 'v option" where
  "QueryCurrent db now1 now2 key = QueryTemporal db key now1 now2"

text \<open>
  \<^verbatim>\<open>GetHistory\<close> returns a slice, which in Go may be nil: the result is an option, with
  \<open>None\<close> for the nil slice. Both branches build a slice that is not nil; the second is
  a fresh slice of the same length holding the same records.
\<close>

definition GetHistory :: "'v DBEngine \<Rightarrow> string \<Rightarrow> 'v TemporalRecord list option" where
  "GetHistory db key =
     (case data db key of
        None \<Rightarrow> Some []
      | Some records \<Rightarrow> Some (take (length records) records))"

definition Close :: "'v DBEngine \<Rightarrow> error option \<Rightarrow> error option" where
  "Close db io = persistData db io"

text \<open>The predicate of the scan as the program tests it, and as the specification words it.\<close>

definition matches :: "time \<Rightarrow> time \<Rightarrow> 'v TemporalRecord \<Rightarrow> bool" where
  "matches asOfTime validTime rec \<longleftrightarrow>
     \<not> asOfTime < TransactionTime rec \<and> ValidTimeStart rec < validTime \<and> validTime < ValidTimeEnd rec"

definition spec_matches :: "time \<Rightarrow> time \<Rightarrow> 'v TemporalRecord \<Rightarrow> bool" where
  "spec_matches asOfTime validTime rec \<longleftrightarrow>
     TransactionTime rec \<le> asOfTime \<and> ValidTimeStart rec \<le> validTime \<and> validTime < ValidTimeEnd rec"

text \<open>A sequence of inserts, each with its clock reading and its persistence outcome.\<close>

record 'v insert_call =
  ic_now :: time
  ic_io :: "error option"
  ic_key :: string
  ic_value :: 'v
  ic_validStart :: time
  ic_validEnd :: time

definition record_of :: "'v insert_call \<Rightarrow> 'v TemporalRecord" where
  "record_of c = \<lparr>Key = ic_key c, Value = ic_value c, ValidTimeStart = ic_validStart c,
                   ValidTimeEnd = ic_validEnd c, TransactionTime = ic_now c, Metadata = None\<rparr>"

fun run_inserts :: "'v DBEngine \<Rightarrow> 'v insert_call list \<Rightarrow> 'v DBEngine" where
  "run_inserts db [] = db"
| "run_inserts db (c # cs) =
     run_inserts (snd (Insert db (ic_now c) (ic_io c) (ic_key c) (ic_value c)
                         (ic_validStart c) (ic_validEnd c))) cs"

section \<open>The CRDT store (crdt.go)\<close>

text \<open>
  The map \<^verbatim>\<open>NodeCounts\<close> is an association list with one entry for each key; the order
  of the entries is the order in which a \<^verbatim>\<open>range\<close> loop visits them, which Go leaves
  open. \<open>count_at m n\<close> is the Go expression \<^verbatim>\<open>m[n]\<close>: the zero value for a missing key.
\<close>

record GCounter =
  NodeCounts :: "(string \<times> int64) list"

record 'v LWWRegister =
  Value :: 'v
  Timestamp :: time
  NodeID :: string

record 'v CRDTStore =
  gcounter :: "string \<rightharpoonup> GCounter"
  lww :: "string \<rightharpoonup> 'v LWWRegister"

definition NewCRDTStore :: "'v CRDTStore" where
  "NewCRDTStore = \<lparr>gcounter = Map.empty, lww = Map.empty\<rparr>"

definition count_at :: "(string \<times> int64) list \<Rightarrow> string \<Rightarrow> int64" where
  "count_at m n = (case map_of m n of None \<Rightarrow> 0 | Some c \<Rightarrow> c)"

text \<open>
  The first lines of \<^verbatim>\<open>IncrementCounter\<close> and of \<^verbatim>\<open>MergeCounter\<close>: the stored counter of
  the key, or a counter with a new empty map.
\<close>

definition counter_of :: "'v CRDTStore \<Rightarrow> string \<Rightarrow> GCounter" where
  "counter_of c key = (case gcounter c key of None \<Rightarrow> \<lparr>NodeCounts = []\<rparr> | Some gc \<Rightarrow> gc)"

text \<open>\<^verbatim>\<open>IncrementCounter\<close> has no result and no check of \<open>delta\<close>; the addition wraps.\<close>

definition IncrementCounter :: "'v CRDTStore \<Rightarrow> string \<Rightarrow> string \<Rightarrow> int64 \<Rightarrow> 'v CRDTStore" where
  "IncrementCounter c key nodeID delta =
     (let gc = counter_of c key;
          gc' = gc\<lparr>NodeCounts :=
                  AList.update nodeID (count_at (NodeCounts gc) nodeID + delta) (NodeCounts gc)\<rparr>
      in c\<lparr>gcounter := (gcounter c)(key \<mapsto> gc')\<rparr>)"

text \<open>The loop of \<^verbatim>\<open>GetCounter\<close>, with the running \<^verbatim>\<open>total\<close> as \<open>tot\<close>.\<close>

fun sum_counts :: "(string \<times> int64) list \<Rightarrow> int64 \<Rightarrow> int64" where
  "sum_counts [] tot = tot"
| "sum_counts ((nodeID, count) # rest) tot = sum_counts rest (tot + count)"

definition GetCounter :: "'v CRDTStore \<Rightarrow> string \<Rightarrow> int64" where
  "GetCounter c key =
     (case gcounter c key of None \<Rightarrow> 0 | Some gc \<Rightarrow> sum_counts (NodeCounts gc) 0)"

definition SetLWW :: "'v CRDTStore \<Rightarrow> string \<Rightarrow> 'v \<Rightarrow> time \<Rightarrow> string \<Rightarrow> 'v CRDTStore" where
  "SetLWW c key val timestamp nodeID =
     (case lww c key of
        None \<Rightarrow>
          c\<lparr>lww := (lww c)(key \<mapsto> \<lparr>Value = val, Timestamp = timestamp, NodeID = nodeID\<rparr>)\<rparr>
      | Some existing \<Rightarrow>
          if Timestamp existing < timestamp \<or>
             (timestamp = Timestamp existing \<and> NodeID existing < nodeID)
          then c\<lparr>lww := (lww c)(key \<mapsto> \<lparr>Value = val, Timestamp = timestamp, NodeID = nodeID\<rparr>)\<rparr>
          else c)"

definition GetLWW :: "'v CRDTStore \<Rightarrow> string \<Rightarrow> 'v option" where
  "GetLWW c key = (case lww c key of None \<Rightarrow> None | Some reg \<Rightarrow> Some (LWWRegister.Value reg))"

text \<open>
  The loop of \<^verbatim>\<open>MergeCounter\<close> over the entries of \<^verbatim>\<open>other.NodeCounts\<close>; the comparison
  \<^verbatim>\<open>count > local.NodeCounts[nodeID]\<close> is the signed one.
\<close>

fun merge_counts :: "(string \<times> int64) list \<Rightarrow> (string \<times> int64) list \<Rightarrow> (string \<times> int64) list" where
  "merge_counts [] local = local"
| "merge_counts ((nodeID, count) # rest) local =
     merge_counts rest
       (if count_at local nodeID <s count then AList.update nodeID count local else local)"

definition MergeCounter :: "'v CRDTStore \<Rightarrow> string \<Rightarrow> GCounter \<Rightarrow> 'v CRDTStore" where
  "MergeCounter c key other =
     (let local = counter_of c key;
          local' = local\<lparr>NodeCounts := merge_counts (NodeCounts other) (NodeCounts local)\<rparr>
      in c\<lparr>gcounter := (gcounter c)(key \<mapsto> local')\<rparr>)"

definition MergeLWW :: "'v CRDTStore \<Rightarrow> string \<Rightarrow> 'v LWWRegister \<Rightarrow> 'v CRDTStore" where
  "MergeLWW c key other =
     (case lww c key of
        None \<Rightarrow> c\<lparr>lww := (lww c)(key \<mapsto> other)\<rparr>
      | Some local \<Rightarrow>
          if Timestamp local < Timestamp other \<or>
             (Timestamp other = Timestamp local \<and> NodeID local < NodeID other)
          then c\<lparr>lww := (lww c)(key \<mapsto> other)\<rparr>
          else c)"

text \<open>The component map a store holds for a key, empty when the key is unknown.\<close>

definition counts_of :: "'v CRDTStore \<Rightarrow> string \<Rightarrow> (string \<times> int64) list" where
  "counts_of c key = NodeCounts (counter_of c key)"

text \<open>
  Well-formed component maps: one entry for each key (what a Go map is), and no negative
  component (what the data model asks of a grow-only counter).
\<close>

definition wf_counts :: "(string \<times> int64) list \<Rightarrow> bool" where
  "wf_counts m \<longleftrightarrow> distinct (map fst m)"

definition nonneg_counts :: "(string \<times> int64) list \<Rightarrow> bool" where
  "nonneg_counts m \<longleftrightarrow> list_all (\<lambda>p. 0 \<le>s snd p) m"

text \<open>The larger of two components in the signed order.\<close>

definition smax :: "int64 \<Rightarrow> int64 \<Rightarrow> int64" where
  "smax a b = (if a <s b then b else a)"

text \<open>
  The calls on registers, and a sequence of them run on a store. \<open>call_reg\<close> is the
  register a call carries, \<open>call_key\<close> the key it addresses.
\<close>

datatype 'v lww_call = SetCall string 'v time string | MergeCall string "'v LWWRegister"

fun apply_call :: "'v CRDTStore \<Rightarrow> 'v lww_call \<Rightarrow> 'v CRDTStore" where
  "apply_call c (SetCall key val timestamp nodeID) = SetLWW c key val timestamp nodeID"
| "apply_call c (MergeCall key other) = MergeLWW c key other"

fun run_calls :: "'v CRDTStore \<Rightarrow> 'v lww_call list \<Rightarrow> 'v CRDTStore" where
  "run_calls c [] = c"
| "run_calls c (x # xs) = run_calls (apply_call c x) xs"

fun call_key :: "'v lww_call \<Rightarrow> string" where
  "call_key (SetCall key val timestamp nodeID) = key"
| "call_key (MergeCall key other) = key"

fun call_reg :: "'v lww_call \<Rightarrow> 'v LWWRegister" where
  "call_reg (SetCall key val timestamp nodeID) =
     \<lparr>Value = val, Timestamp = timestamp, NodeID = nodeID\<rparr>"
| "call_reg (MergeCall key other) = other"

text \<open>The order of the registers: by timestamp, then by writer.\<close>

definition stamp :: "'v LWWRegister \<Rightarrow> time \<times> string" where
  "stamp reg = (Timestamp reg, NodeID reg)"

definition stamp_less :: "time \<times> string \<Rightarrow> time \<times> string \<Rightarrow> bool" where
  "stamp_less p q \<longleftrightarrow> fst p < fst q \<or> (fst p = fst q \<and> snd p < snd q)"

text \<open>
  One call on a register, on the stored register of its key: \<^verbatim>\<open>SetLWW\<close> and \<^verbatim>\<open>MergeLWW\<close>
  share this test. \<open>regs_for key calls\<close> are the registers the calls on the key carry,
  in the order of the calls.
\<close>

definition lww_step :: "'v LWWRegister option \<Rightarrow> 'v LWWRegister \<Rightarrow> 'v LWWRegister option" where
  "lww_step cur other =
     (case cur of
        None \<Rightarrow> Some other
      | Some local \<Rightarrow> if stamp_less (stamp local) (stamp other) then Some other else Some local)"

definition regs_for :: "string \<Rightarrow> 'v lww_call list \<Rightarrow> 'v LWWRegister list" where
  "regs_for key calls = map call_reg (filter (\<lambda>x. call_key x = key) calls)"

section \<open>The replication coordinator (raft.go)\<close>

datatype RaftState = Follower | Candidate | Leader

record 'c LogEntry =
  Term :: int64
  Index :: int64
  Command :: 'c

text \<open>
  The fields \<^verbatim>\<open>db\<close> and \<^verbatim>\<open>crdtStore\<close> are pointers to the two stores; the record holds
  the stores they point to. The channel \<^verbatim>\<open>shutdownCh\<close> is the flag "closed".
\<close>

record ('v, 'c) RaftNode =
  nodeID :: string
  raftPort :: int
  peers :: "string \<rightharpoonup> string"
  state :: RaftState
  currentTerm :: int64
  votedFor :: string
  log :: "'c LogEntry list"
  commitIndex :: int64
  lastApplied :: int64
  db :: "'v DBEngine"
  crdtStore :: "'v CRDTStore"
  dataDir :: string
  shutdownCh :: bool

definition NewRaftNode ::
  "string \<Rightarrow> int \<Rightarrow> string \<Rightarrow> 'v DBEngine \<Rightarrow> 'v CRDTStore \<Rightarrow> error option \<times> ('v, 'c) RaftNode" where
  "NewRaftNode node_id port dir engine store =
     (None,
      \<lparr>nodeID = node_id, raftPort = port, peers = Map.empty, state = Follower,
       currentTerm = 0, votedFor = [], log = [], commitIndex = 0, lastApplied = 0,
       db = engine, crdtStore = store, dataDir = dir, shutdownCh = False\<rparr>)"

definition Join ::
  "('v, 'c) RaftNode \<Rightarrow> string \<Rightarrow> string \<Rightarrow> string \<Rightarrow> error option \<times> ('v, 'c) RaftNode" where
  "Join r node_id addr leaderAddr = (None, r\<lparr>peers := (peers r)(node_id \<mapsto> addr)\<rparr>)"

definition startElection :: "('v, 'c) RaftNode \<Rightarrow> ('v, 'c) RaftNode" where
  "startElection r =
     (let r1 = r\<lparr>currentTerm := currentTerm r + 1, votedFor := nodeID r\<rparr>
      in if peers r1 = Map.empty then r1\<lparr>state := Leader\<rparr> else r1)"

text \<open>One tick of \<^verbatim>\<open>runConsensus\<close>; \<^verbatim>\<open>sendHeartbeats\<close> only writes to the process log.\<close>

definition tick :: "('v, 'c) RaftNode \<Rightarrow> ('v, 'c) RaftNode" where
  "tick r = (case state r of Follower \<Rightarrow> r | Candidate \<Rightarrow> startElection r | Leader \<Rightarrow> r)"

text \<open>
  \<^verbatim>\<open>Apply\<close> returns an error only (\<open>None\<close> is \<^verbatim>\<open>nil\<close>). The index of the new entry is
  \<^verbatim>\<open>int64(len(r.log) + 1)\<close>.
\<close>

definition Apply :: "('v, 'c) RaftNode \<Rightarrow> 'c \<Rightarrow> error option \<times> ('v, 'c) RaftNode" where
  "Apply r command =
     (let entry = \<lparr>Term = currentTerm r, Index = of_nat (length (log r) + 1), Command = command\<rparr>;
          r1 = r\<lparr>log := log r @ [entry]\<rparr>;
          r2 = r1\<lparr>commitIndex := Index entry\<rparr>;
          r3 = r2\<lparr>lastApplied := Index entry\<rparr>
      in (None, r3))"

definition GetState :: "('v, 'c) RaftNode \<Rightarrow> string \<times> int64" where
  "GetState r =
     ((case state r of Leader \<Rightarrow> ''leader'' | Candidate \<Rightarrow> ''candidate'' | Follower \<Rightarrow> ''follower''),
      currentTerm r)"

text \<open>
  What happens to a node: calls of \<^verbatim>\<open>Apply\<close> and \<^verbatim>\<open>Join\<close>, and ticks of the background
  task, in any order.
\<close>

datatype 'c raft_event = EvApply 'c | EvJoin string string string | EvTick

fun raft_step :: "('v, 'c) RaftNode \<Rightarrow> 'c raft_event \<Rightarrow> ('v, 'c) RaftNode" where
  "raft_step r (EvApply command) = snd (Apply r command)"
| "raft_step r (EvJoin node_id addr leaderAddr) = snd (Join r node_id addr leaderAddr)"
| "raft_step r EvTick = tick r"

fun raft_run :: "('v, 'c) RaftNode \<Rightarrow> 'c raft_event list \<Rightarrow> ('v, 'c) RaftNode" where
  "raft_run r [] = r"
| "raft_run r (e # es) = raft_run (raft_step r e) es"

text \<open>
  The bookkeeping invariant of a node: both counters are the length of the log, and the
  entry at position \<open>i\<close> (from 0) has index \<open>i + 1\<close>.
\<close>

definition log_inv :: "('v, 'c) RaftNode \<Rightarrow> bool" where
  "log_inv r \<longleftrightarrow>
     commitIndex r = of_nat (length (log r)) \<and>
     lastApplied r = of_nat (length (log r)) \<and>
     map Index (log r) = map (\<lambda>i. of_nat (i + 1)) [0..<length (log r)]"

section \<open>Concrete states\<close>

text \<open>
  The price scenario: value 100 valid from 1 to 7, recorded at 10, then value 200 valid
  from 7 to 9999, recorded at 11. The correction scenario: value 1 and then value 2 for
  the same valid interval, recorded at 1 and at 2.
\<close>

definition empty_db :: "nat DBEngine" where
  "empty_db = \<lparr>data = Map.empty, dataDir = ''data''\<rparr>"

definition price_1 :: "nat TemporalRecord" where
  "price_1 = \<lparr>Key = ''p'', Value = 100, ValidTimeStart = 1, ValidTimeEnd = 7,
               TransactionTime = 10, Metadata = None\<rparr>"

definition price_2 :: "nat TemporalRecord" where
  "price_2 = \<lparr>Key = ''p'', Value = 200, ValidTimeStart = 7, ValidTimeEnd = 9999,
               TransactionTime = 11, Metadata = None\<rparr>"

definition prices_db :: "nat DBEngine" where
  "prices_db =
     snd (Insert (snd (Insert empty_db 10 None ''p'' 100 1 7)) 11 None ''p'' 200 7 9999)"

definition fact_1 :: "nat TemporalRecord" where
  "fact_1 = \<lparr>Key = ''q'', Value = 1, ValidTimeStart = 0, ValidTimeEnd = 100,
              TransactionTime = 1, Metadata = None\<rparr>"

definition fact_2 :: "nat TemporalRecord" where
  "fact_2 = \<lparr>Key = ''q'', Value = 2, ValidTimeStart = 0, ValidTimeEnd = 100,
              TransactionTime = 2, Metadata = None\<rparr>"

definition corrected_db :: "nat DBEngine" where
  "corrected_db =
     snd (Insert (snd (Insert empty_db 1 None ''q'' 1 0 100)) 2 None ''q'' 2 0 100)"

text \<open>
  A node created over the empty store and a new CRDT store, and a command that stands
  for the insert of the first price. A command is opaque to the program; here it is a
  tuple of the operation's name and its arguments.
\<close>

type_synonym command = "string \<times> string \<times> nat \<times> time \<times> time"

definition insert_cmd :: command where
  "insert_cmd = (''insert'', ''p'', 100, 1, 7)"

definition new_node :: "(nat, command) RaftNode" where
  "new_node = snd (NewRaftNode ''node1'' 9000 ''data'' empty_db NewCRDTStore)"

text \<open>
  The counter scenario: node n1 adds 3 and node n2 adds 2 under key v; the remote counter
  has 1 for n1 and 5 for n2, and a second replica holds it. A third counter knows node
  n3 only, and one counter has -1 for n1. The wrapped store comes from two increments by non-negative amounts, the
  largest \<^verbatim>\<open>int64\<close> and 1.
\<close>

definition fresh_store :: "nat CRDTStore" where
  "fresh_store = NewCRDTStore"

definition tally_store :: "nat CRDTStore" where
  "tally_store = IncrementCounter (IncrementCounter NewCRDTStore ''v'' ''n1'' 3) ''v'' ''n2'' 2"

definition remote_tally :: GCounter where
  "remote_tally = \<lparr>NodeCounts = [(''n1'', 1), (''n2'', 5)]\<rparr>"

definition wrapped_store :: "nat CRDTStore" where
  "wrapped_store =
     IncrementCounter (IncrementCounter NewCRDTStore ''v'' ''n1'' 0x7FFFFFFFFFFFFFFF) ''v'' ''n1'' 1"

definition remote_store :: "nat CRDTStore" where
  "remote_store = MergeCounter NewCRDTStore ''v'' remote_tally"

definition negative_tally :: GCounter where
  "negative_tally = \<lparr>NodeCounts = [(''n1'', - 1)]\<rparr>"

definition third_tally :: GCounter where
  "third_tally = \<lparr>NodeCounts = [(''n3'', 4)]\<rparr>"

text \<open>
  The register scenario: red is set at time 10 by n1, blue arrives by merge with time 5
  from n2. A further call sets green with the same time 10 and the same writer n1.
\<close>

definition color_store :: "string CRDTStore" where
  "color_store = NewCRDTStore"

definition set_red :: "string lww_call" where
  "set_red = SetCall ''c'' ''red'' 10 ''n1''"

definition merge_blue :: "string lww_call" where
  "merge_blue = MergeCall ''c'' \<lparr>Value = ''blue'', Timestamp = 5, NodeID = ''n2''\<rparr>"

definition set_green :: "string lww_call" where
  "set_green = SetCall ''c'' ''green'' 10 ''n1''"

section \<open>Lemmas on the scan\<close>

lemma scan_find:
  "n \<le> length records \<Longrightarrow>
     scan records n asOf vt = find (matches asOf vt) (rev (take n records))"
proof (induction n)
  case 0
  then show ?case by simp
next
  case (Suc n)
  then have "take (Suc n) records = take n records @ [records ! n]"
    by (simp add: take_Suc_conv_app_nth)
  with Suc show ?case
    by (auto simp: matches_def Let_def)
qed

lemma scan_all_find:
  "scan records (length records) asOf vt = find (matches asOf vt) (rev records)"
  by (simp add: scan_find)

lemma find_rev_append_hidden:
  "\<forall>r \<in> set ys. \<not> P r \<Longrightarrow> find P (rev (xs @ ys)) = find P (rev xs)"
  by (induction ys rule: rev_induct) auto

lemma find_last_match:
  "P r \<Longrightarrow> \<forall>x \<in> set newer. \<not> P x \<Longrightarrow> find P (rev (older @ r # newer)) = Some r"
  by (induction newer rule: rev_induct) auto

lemma find_None_set: "find P xs = None \<longleftrightarrow> (\<forall>x \<in> set xs. \<not> P x)"
  by (auto simp: find_None_iff)

lemma find_removeAll_hidden: "\<not> P x \<Longrightarrow> find P (removeAll x xs) = find P xs"
  by (induction xs) auto

lemma rev_removeAll: "rev (removeAll x xs) = removeAll x (rev xs)"
  by (induction xs) auto

section \<open>Lemmas on the store\<close>

lemma Insert_data:
  "data (snd (Insert eng now io key v a b)) =
     (data eng)(key \<mapsto> (case data eng key of None \<Rightarrow> [] | Some rs \<Rightarrow> rs) @
        [\<lparr>Key = key, Value = v, ValidTimeStart = a, ValidTimeEnd = b,
          TransactionTime = now, Metadata = None\<rparr>])"
  by (simp add: Insert_def Let_def)

lemma Insert_error: "fst (Insert eng now io key v a b) = io"
  by (simp add: Insert_def Let_def persistData_def)

lemma QueryTemporal_record_find:
  "QueryTemporal_record eng key asOf vt =
     (case data eng key of None \<Rightarrow> None | Some records \<Rightarrow> find (matches asOf vt) (rev records))"
  by (simp add: QueryTemporal_record_def scan_all_find split: option.splits)

lemma Insert_history:
  "GetHistory (snd (Insert eng now io key v a b)) k =
     (if k = key
      then Some (the (GetHistory eng key) @
             [\<lparr>Key = key, Value = v, ValidTimeStart = a, ValidTimeEnd = b,
               TransactionTime = now, Metadata = None\<rparr>])
      else GetHistory eng k)"
  by (simp add: GetHistory_def Insert_data split: option.splits)

lemma GetHistory_run_inserts:
  "GetHistory (run_inserts eng cs) key =
     Some (the (GetHistory eng key) @ map record_of (filter (\<lambda>c. ic_key c = key) cs))"
proof (induction cs arbitrary: eng)
  case Nil
  show ?case by (simp add: GetHistory_def split: option.splits)
next
  case (Cons c cs)
  show ?case
    by (simp add: Cons.IH Insert_history record_of_def)
qed

lemma prices_data: "data prices_db ''p'' = Some [price_1, price_2]"
  by (simp add: prices_db_def empty_db_def Insert_data price_1_def price_2_def)

lemma corrected_data: "data corrected_db ''q'' = Some [fact_1, fact_2]"
  by (simp add: corrected_db_def empty_db_def Insert_data fact_1_def fact_2_def)

section \<open>Point-in-time queries\<close>

text \<open>
  Claim C1, as the program has it. \<^verbatim>\<open>QueryTemporal\<close> answers not-found for an unknown key.
  For a known key it scans the history from the record inserted last to the oldest and
  returns the value of the first record that matches, so of two matching records the one
  inserted later is returned, and it answers not-found exactly when no record matches.
  A record matches when it was recorded at or before \<open>asOf\<close> and the valid time lies
  strictly between its two bounds: a record whose valid-from equals the valid time does
  not match.
\<close>

theorem QueryTemporal_latest_match:
  "(data eng key = None \<longrightarrow> QueryTemporal eng key asOf vt = None) \<and>
   (\<forall>records. data eng key = Some records \<longrightarrow>
      QueryTemporal eng key asOf vt =
        map_option TemporalRecord.Value (find (matches asOf vt) (rev records)) \<and>
      (QueryTemporal eng key asOf vt = None \<longleftrightarrow> (\<forall>r \<in> set records. \<not> matches asOf vt r)) \<and>
      (\<forall>older r newer.
         records = older @ r # newer \<and> matches asOf vt r \<and>
         (\<forall>x \<in> set newer. \<not> matches asOf vt x)
           \<longrightarrow> QueryTemporal eng key asOf vt = Some (TemporalRecord.Value r))) \<and>
   (\<forall>r :: 'v TemporalRecord. matches asOf vt r \<longleftrightarrow>
      TransactionTime r \<le> asOf \<and> ValidTimeStart r < vt \<and> vt < ValidTimeEnd r)"
proof (intro conjI allI impI)
  assume "data eng key = None"
  then show "QueryTemporal eng key asOf vt = None"
    by (simp add: QueryTemporal_def QueryTemporal_record_find)
next
  fix records assume "data eng key = Some records"
  then show "QueryTemporal eng key asOf vt =
        map_option TemporalRecord.Value (find (matches asOf vt) (rev records))"
    by (simp add: QueryTemporal_def QueryTemporal_record_find)
next
  fix records assume "data eng key = Some records"
  then show "(QueryTemporal eng key asOf vt = None) = (\<forall>r \<in> set records. \<not> matches asOf vt r)"
    by (simp add: QueryTemporal_def QueryTemporal_record_find find_None_set)
next
  fix records older r newer
  assume d: "data eng key = Some records"
    and h: "records = older @ r # newer \<and> matches asOf vt r \<and>
            (\<forall>x \<in> set newer. \<not> matches asOf vt x)"
  then have "find (matches asOf vt) (rev records) = Some r"
    using find_last_match [of "matches asOf vt" r newer older] by blast
  with d show "QueryTemporal eng key asOf vt = Some (TemporalRecord.Value r)"
    by (simp add: QueryTemporal_def QueryTemporal_record_find)
next
  fix r :: "'v TemporalRecord"
  show "matches asOf vt r =
          (TransactionTime r \<le> asOf \<and> ValidTimeStart r < vt \<and> vt < ValidTimeEnd r)"
    by (auto simp: matches_def)
qed

text \<open>
  In the correction scenario both records match the query; the later one answers. In the
  price scenario each query has one matching record.
\<close>

theorem QueryTemporal_latest_match_witness:
  "data corrected_db ''q'' = Some ([fact_1] @ fact_2 # []) \<and>
   matches 5 50 fact_1 \<and> matches 5 50 fact_2 \<and>
   QueryTemporal corrected_db ''q'' 5 50 = Some 2 \<and>
   QueryTemporal corrected_db ''r'' 5 50 = None \<and>
   QueryTemporal prices_db ''p'' 20 3 = Some 100 \<and>
   QueryTemporal prices_db ''p'' 20 8 = Some 200"
proof -
  have d: "data corrected_db ''q'' = Some ([fact_1] @ fact_2 # [])"
    by (simp add: corrected_data)
  have m1: "matches 5 50 fact_1" and m2: "matches 5 50 fact_2"
    by (simp_all add: matches_def fact_1_def fact_2_def)
  have e: "\<forall>x \<in> set []. \<not> matches 5 50 (x :: nat TemporalRecord)"
    by simp
  have n: "data corrected_db ''r'' = None"
    by (simp add: corrected_db_def empty_db_def Insert_data)
  have "QueryTemporal corrected_db ''q'' 5 50 = Some (TemporalRecord.Value fact_2)"
    using d m2 e
      QueryTemporal_latest_match [of corrected_db "''q''" 5 50, THEN conjunct2, THEN conjunct1,
        rule_format, of "[fact_1] @ fact_2 # []", THEN conjunct2, THEN conjunct2,
        rule_format, of "[fact_1]" fact_2 "[]"]
    by blast
  then have q: "QueryTemporal corrected_db ''q'' 5 50 = Some 2"
    by (simp add: fact_2_def)
  have r: "QueryTemporal corrected_db ''r'' 5 50 = None"
    by (rule QueryTemporal_latest_match [of corrected_db "''r''" 5 50, THEN conjunct1,
          rule_format, OF n])
  have p1: "QueryTemporal prices_db ''p'' 20 3 = Some 100"
    by (simp add: QueryTemporal_latest_match [of prices_db "''p''" 20 3, THEN conjunct2,
          THEN conjunct1, rule_format, OF prices_data, THEN conjunct1]
        matches_def price_1_def price_2_def)
  have p2: "QueryTemporal prices_db ''p'' 20 8 = Some 200"
    by (simp add: QueryTemporal_latest_match [of prices_db "''p''" 20 8, THEN conjunct2,
          THEN conjunct1, rule_format, OF prices_data, THEN conjunct1]
        matches_def price_1_def price_2_def)
  from d m1 m2 q r p1 p2 show ?thesis by blast
qed

text \<open>
  The second price is valid from 7. Asked for valid time 7, with everything known, the
  record satisfies the predicate as the specification words it (valid-from at or before
  the valid time), and the query finds nothing.
\<close>

theorem QueryTemporal_start_boundary_counterexample:
  "data prices_db ''p'' = Some [price_1, price_2] \<and>
   spec_matches 20 7 price_2 \<and>
   QueryTemporal prices_db ''p'' 20 7 = None \<and>
   map_option TemporalRecord.Value (find (spec_matches 20 7) (rev [price_1, price_2])) = Some 200"
  by (simp add: prices_data QueryTemporal_def QueryTemporal_record_find
        matches_def spec_matches_def price_1_def price_2_def)

lemma Insert_after_asOf:
  "asOf < t2 \<Longrightarrow>
     QueryTemporal (snd (Insert eng t2 io key v c d)) key asOf vt = QueryTemporal eng key asOf vt"
  by (simp add: QueryTemporal_def QueryTemporal_record_find Insert_data matches_def
        split: option.splits)

text \<open>
  Claim C2. A record of the key's history that was recorded after \<open>asOf\<close> is never the
  record a query with that \<open>asOf\<close> answers from, wherever the valid time lies: the
  record answered from was recorded at or before \<open>asOf\<close>, and the answer is the one the
  store gives with that record taken out of the history. The histories are the inserted
  records (\<^verbatim>\<open>Insert\<close> appends, nothing else writes), so this holds for every pair of
  inserted records R1, R2 with R2 recorded later than \<open>asOf\<close>; R1 plays no part. In
  particular, after the insert of R1 at \<open>t1\<close> and of R2 at a later \<open>t2\<close>, a query as of
  a time before \<open>t2\<close> answers as it did before R2 was inserted.
\<close>

theorem query_ignores_later_record:
  assumes "data eng key = Some records" and "r2 \<in> set records"
    and "asOf < TransactionTime r2"
  shows "QueryTemporal_record eng key asOf vt \<noteq> Some r2 \<and>
         (\<forall>r. QueryTemporal_record eng key asOf vt = Some r \<longrightarrow> TransactionTime r \<le> asOf) \<and>
         QueryTemporal eng key asOf vt =
           QueryTemporal (eng\<lparr>data := (data eng)(key \<mapsto> removeAll r2 records)\<rparr>) key asOf vt \<and>
         (\<forall>(eng0 :: 'a DBEngine) t1 t2 io1 io2 v1 v2 a b c d. t1 < t2 \<and> asOf < t2 \<longrightarrow>
            QueryTemporal (snd (Insert (snd (Insert eng0 t1 io1 key v1 a b)) t2 io2 key v2 c d))
              key asOf vt =
            QueryTemporal (snd (Insert eng0 t1 io1 key v1 a b)) key asOf vt)"
proof -
  have no: "\<not> matches asOf vt r2"
    using assms(3) by (simp add: matches_def)
  have sel: "QueryTemporal_record eng key asOf vt = find (matches asOf vt) (rev records)"
    using assms(1) by (simp add: QueryTemporal_record_find)
  have a: "QueryTemporal_record eng key asOf vt \<noteq> Some r2"
    using no sel by (auto simp: find_Some_iff)
  have b: "\<forall>r. QueryTemporal_record eng key asOf vt = Some r \<longrightarrow> TransactionTime r \<le> asOf"
    using sel by (auto simp: matches_def find_Some_iff)
  have "find (matches asOf vt) (rev (removeAll r2 records)) = find (matches asOf vt) (rev records)"
    using no by (simp add: rev_removeAll find_removeAll_hidden)
  then have c: "QueryTemporal eng key asOf vt =
           QueryTemporal (eng\<lparr>data := (data eng)(key \<mapsto> removeAll r2 records)\<rparr>) key asOf vt"
    using assms(1) by (simp add: QueryTemporal_def QueryTemporal_record_find)
  have d: "\<forall>(eng0 :: 'a DBEngine) t1 t2 io1 io2 v1 v2 a b c d. t1 < t2 \<and> asOf < t2 \<longrightarrow>
            QueryTemporal (snd (Insert (snd (Insert eng0 t1 io1 key v1 a b)) t2 io2 key v2 c d))
              key asOf vt =
            QueryTemporal (snd (Insert eng0 t1 io1 key v1 a b)) key asOf vt"
    by (simp add: Insert_after_asOf)
  from a b c d show ?thesis by blast
qed

text \<open>
  In the price scenario the second record is recorded at 11 and valid at 8. A query as of
  10 for valid time 8 does not see it; a query as of 11 does.
\<close>

theorem query_ignores_later_record_witness:
  "data prices_db ''p'' = Some [price_1, price_2] \<and>
   price_2 \<in> set [price_1, price_2] \<and>
   TransactionTime price_1 < TransactionTime price_2 \<and>
   10 < TransactionTime price_2 \<and>
   ValidTimeStart price_2 < 8 \<and> 8 < ValidTimeEnd price_2 \<and>
   QueryTemporal_record prices_db ''p'' 10 8 \<noteq> Some price_2 \<and>
   QueryTemporal prices_db ''p'' 10 8 = QueryTemporal (snd (Insert empty_db 10 None ''p'' 100 1 7)) ''p'' 10 8 \<and>
   QueryTemporal prices_db ''p'' 10 8 = None \<and>
   QueryTemporal prices_db ''p'' 11 8 = Some 200"
proof -
  have t: "10 < TransactionTime price_2"
    by (simp add: price_2_def)
  have m: "price_2 \<in> set [price_1, price_2]"
    by simp
  note w = query_ignores_later_record [OF prices_data m t, of 8]
  have a: "QueryTemporal_record prices_db ''p'' 10 8 \<noteq> Some price_2"
    by (rule w [THEN conjunct1])
  have lt: "(10 :: int) < 11 \<and> (10 :: int) < 11"
    by simp
  have b: "QueryTemporal prices_db ''p'' 10 8 =
      QueryTemporal (snd (Insert empty_db 10 None ''p'' 100 1 7)) ''p'' 10 8"
    unfolding prices_db_def
    by (rule w [THEN conjunct2, THEN conjunct2, THEN conjunct2, rule_format, OF lt])
  have rest: "data prices_db ''p'' = Some [price_1, price_2]"
    "TransactionTime price_1 < TransactionTime price_2"
    "ValidTimeStart price_2 < 8" "8 < ValidTimeEnd price_2"
    "QueryTemporal prices_db ''p'' 10 8 = None"
    "QueryTemporal prices_db ''p'' 11 8 = Some 200"
    by (simp_all add: prices_data QueryTemporal_def QueryTemporal_record_find
          matches_def price_1_def price_2_def)
  from a b m t rest show ?thesis by blast
qed

section \<open>Inserts and histories\<close>

text \<open>
  Claim C7, as the program has it. \<^verbatim>\<open>Insert\<close> does not look at the time range. For every
  key, value and range, also one with valid-from at or after valid-to, it appends the
  record to the key's history, leaves every other key as it was and returns what the
  persistence step returns, so no validation error exists. A record with valid-from at
  or after valid-to matches no query: every query answers as before the insert.
\<close>

theorem Insert_unvalidated:
  "fst (Insert eng now io key v validStart validEnd) = io \<and>
   GetHistory (snd (Insert eng now io key v validStart validEnd)) key =
     Some (the (GetHistory eng key) @
       [\<lparr>Key = key, Value = v, ValidTimeStart = validStart, ValidTimeEnd = validEnd,
         TransactionTime = now, Metadata = None\<rparr>]) \<and>
   (\<forall>k. k \<noteq> key \<longrightarrow> data (snd (Insert eng now io key v validStart validEnd)) k = data eng k) \<and>
   (validEnd \<le> validStart \<longrightarrow>
      (\<forall>k asOf vt. QueryTemporal (snd (Insert eng now io key v validStart validEnd)) k asOf vt =
                   QueryTemporal eng k asOf vt))"
proof (intro conjI allI impI)
  show "fst (Insert eng now io key v validStart validEnd) = io" by (rule Insert_error)
  show "GetHistory (snd (Insert eng now io key v validStart validEnd)) key =
     Some (the (GetHistory eng key) @
       [\<lparr>Key = key, Value = v, ValidTimeStart = validStart, ValidTimeEnd = validEnd,
         TransactionTime = now, Metadata = None\<rparr>])"
    by (simp add: Insert_history)
next
  fix k assume "k \<noteq> key"
  then show "data (snd (Insert eng now io key v validStart validEnd)) k = data eng k"
    by (simp add: Insert_data)
next
  fix k asOf vt assume "validEnd \<le> validStart"
  then show "QueryTemporal (snd (Insert eng now io key v validStart validEnd)) k asOf vt =
                   QueryTemporal eng k asOf vt"
    by (auto simp: QueryTemporal_def QueryTemporal_record_find Insert_data matches_def
          split: option.splits)
qed

theorem Insert_unvalidated_witness:
  "(5::int) \<le> 10 \<and> ''p'' \<noteq> ''k'' \<and>
   fst (Insert prices_db 12 None ''k'' 5 10 5) = None \<and>
   GetHistory (snd (Insert prices_db 12 None ''k'' 5 10 5)) ''k'' =
     Some [\<lparr>Key = ''k'', Value = 5, ValidTimeStart = 10, ValidTimeEnd = 5,
            TransactionTime = 12, Metadata = None\<rparr>] \<and>
   data (snd (Insert prices_db 12 None ''k'' 5 10 5)) ''p'' = Some [price_1, price_2] \<and>
   QueryTemporal (snd (Insert prices_db 12 None ''k'' 5 10 5)) ''k'' 20 7 = None"
proof -
  note w = Insert_unvalidated [of prices_db 12 None "''k''" 5 10 5]
  have le: "(5::int) \<le> 10" and ne: "''p'' \<noteq> ''k''"
    by simp_all
  have k: "data prices_db ''k'' = None"
    by (simp add: prices_db_def empty_db_def Insert_data)
  have q: "QueryTemporal prices_db ''k'' 20 7 = None"
    by (simp add: QueryTemporal_def QueryTemporal_record_find k)
  have g: "GetHistory prices_db ''k'' = Some []"
    by (simp add: GetHistory_def k)
  have a: "fst (Insert prices_db 12 None ''k'' 5 10 5) = None"
    by (rule w [THEN conjunct1])
  have b: "GetHistory (snd (Insert prices_db 12 None ''k'' 5 10 5)) ''k'' =
     Some [\<lparr>Key = ''k'', Value = 5, ValidTimeStart = 10, ValidTimeEnd = 5,
            TransactionTime = 12, Metadata = None\<rparr>]"
    by (simp add: w [THEN conjunct2, THEN conjunct1] g)
  have c: "data (snd (Insert prices_db 12 None ''k'' 5 10 5)) ''p'' = Some [price_1, price_2]"
    by (simp add: w [THEN conjunct2, THEN conjunct2, THEN conjunct1, rule_format, OF ne]
          prices_data)
  have e: "QueryTemporal (snd (Insert prices_db 12 None ''k'' 5 10 5)) ''k'' 20 7 = None"
    by (simp add: w [THEN conjunct2, THEN conjunct2, THEN conjunct2, rule_format, OF le] q)
  from le ne a b c e show ?thesis by blast
qed

text \<open>
  An insert on the empty store with valid-from 10 and valid-to 5: no error comes back and
  the history of the key has changed.
\<close>

theorem Insert_bad_range_counterexample:
  "(5::int) \<le> 10 \<and>
   fst (Insert empty_db 1 None ''k'' 5 10 5) = None \<and>
   GetHistory empty_db ''k'' = Some [] \<and>
   GetHistory (snd (Insert empty_db 1 None ''k'' 5 10 5)) ''k'' =
     Some [\<lparr>Key = ''k'', Value = 5, ValidTimeStart = 10, ValidTimeEnd = 5,
            TransactionTime = 1, Metadata = None\<rparr>]"
  by (simp add: Insert_error Insert_history) (simp add: GetHistory_def empty_db_def)

text \<open>
  Claim C10. \<^verbatim>\<open>GetHistory\<close> never returns the nil slice. For a key that is unknown it returns
  the empty sequence, and for a known key the stored history, which is empty when the
  stored slice is; after any sequence of inserts on a new store the history of a key is
  the sequence of the records inserted under that key, in the order of the inserts.
\<close>

theorem GetHistory_total:
  "GetHistory eng key \<noteq> None \<and>
   (data eng key = None \<longrightarrow> GetHistory eng key = Some []) \<and>
   (\<forall>records. data eng key = Some records \<longrightarrow> GetHistory eng key = Some records) \<and>
   GetHistory (run_inserts \<lparr>data = Map.empty, dataDir = dir\<rparr> cs) key =
     Some (map record_of (filter (\<lambda>c. ic_key c = key) cs))"
  by (simp add: GetHistory_run_inserts) (simp add: GetHistory_def split: option.splits)

theorem GetHistory_total_witness:
  "data prices_db ''k'' = None \<and> GetHistory prices_db ''k'' = Some [] \<and>
   data prices_db ''p'' = Some [price_1, price_2] \<and>
   GetHistory prices_db ''p'' = Some [price_1, price_2]"
proof -
  have k: "data prices_db ''k'' = None"
    by (simp add: prices_db_def empty_db_def Insert_data)
  have a: "GetHistory prices_db ''k'' = Some []"
    by (rule GetHistory_total [of prices_db "''k''", THEN conjunct2, THEN conjunct1,
          rule_format, OF k])
  have b: "GetHistory prices_db ''p'' = Some [price_1, price_2]"
    by (rule GetHistory_total [of prices_db "''p''", THEN conjunct2, THEN conjunct2,
          THEN conjunct1, rule_format, OF prices_data])
  from k a prices_data b show ?thesis by blast
qed

section \<open>The replicated log\<close>

lemma Apply_fields:
  "fst (Apply r command) = None"
  "log (snd (Apply r command)) =
     log r @ [\<lparr>Term = currentTerm r, Index = of_nat (length (log r) + 1), Command = command\<rparr>]"
  "commitIndex (snd (Apply r command)) = of_nat (length (log r) + 1)"
  "lastApplied (snd (Apply r command)) = of_nat (length (log r) + 1)"
  "state (snd (Apply r command)) = state r"
  "currentTerm (snd (Apply r command)) = currentTerm r"
  "peers (snd (Apply r command)) = peers r"
  "db (snd (Apply r command)) = db r"
  "crdtStore (snd (Apply r command)) = crdtStore r"
  by (simp_all add: Apply_def Let_def)

lemma log_inv_New: "log_inv (snd (NewRaftNode node_id port dir engine store))"
  by (simp add: log_inv_def NewRaftNode_def)

lemma log_inv_Apply: "log_inv r \<Longrightarrow> log_inv (snd (Apply r command))"
  by (simp add: log_inv_def Apply_fields)

lemma log_inv_Join: "log_inv r \<Longrightarrow> log_inv (snd (Join r node_id addr leaderAddr))"
  by (simp add: log_inv_def Join_def)

lemma log_inv_tick: "log_inv r \<Longrightarrow> log_inv (tick r)"
  by (simp add: log_inv_def tick_def startElection_def Let_def split: RaftState.splits)

lemma log_inv_step: "log_inv r \<Longrightarrow> log_inv (raft_step r e)"
  by (cases e) (simp_all add: log_inv_Apply log_inv_Join log_inv_tick)

lemma log_inv_run: "log_inv r \<Longrightarrow> log_inv (raft_run r es)"
  by (induction es arbitrary: r) (simp_all add: log_inv_step)

text \<open>
  Nothing in the program sets the state \<open>Candidate\<close>, and only a candidate's tick calls
  \<^verbatim>\<open>startElection\<close>: a node that is a follower stays one.
\<close>

lemma state_step_Follower: "state r = Follower \<Longrightarrow> state (raft_step r e) = Follower"
  by (cases e) (simp_all add: Apply_fields Join_def tick_def)

lemma state_run_Follower: "state r = Follower \<Longrightarrow> state (raft_run r es) = Follower"
  by (induction es arbitrary: r) (simp_all add: state_step_Follower)

lemma new_node_fields:
  "state new_node = Follower" "log new_node = []" "currentTerm new_node = 0"
  "db new_node = empty_db" "crdtStore new_node = NewCRDTStore"
  "commitIndex new_node = 0" "lastApplied new_node = 0"
  by (simp_all add: new_node_def NewRaftNode_def)

text \<open>
  Claim C9. \<^verbatim>\<open>NewRaftNode\<close> establishes and every \<^verbatim>\<open>Apply\<close> preserves: the commit index
  and the last applied index are both the length of the log, and the entry at position
  \<open>i\<close> (from 0) has index \<open>i + 1\<close>. \<^verbatim>\<open>Apply\<close> returns the nil error for every node,
  whatever its state, and every command. The invariant also holds after any sequence of
  \<^verbatim>\<open>Apply\<close> and \<^verbatim>\<open>Join\<close> calls and ticks on a new node.
\<close>

theorem raft_log_invariant:
  "log_inv (snd (NewRaftNode node_id port dir engine store) :: ('v, 'c) RaftNode) \<and>
   (\<forall>(r :: ('v, 'c) RaftNode) command. log_inv r \<longrightarrow> log_inv (snd (Apply r command))) \<and>
   (\<forall>(r :: ('v, 'c) RaftNode) command. fst (Apply r command) = None) \<and>
   (\<forall>events.
      log_inv (raft_run (snd (NewRaftNode node_id port dir engine store) :: ('v, 'c) RaftNode)
        events)) \<and>
   (\<forall>r :: ('v, 'c) RaftNode. log_inv r \<longleftrightarrow>
      commitIndex r = of_nat (length (log r)) \<and> lastApplied r = of_nat (length (log r)) \<and>
      (\<forall>i < length (log r). Index (log r ! i) = of_nat (i + 1)))"
proof (intro conjI allI impI)
  fix r :: "('v, 'c) RaftNode"
  have "(map Index (log r) = map (\<lambda>i. of_nat (i + 1)) [0..<length (log r)]) =
        (\<forall>i < length (log r). Index (log r ! i) = of_nat (i + 1))"
    by (subst list_eq_iff_nth_eq) simp
  then show "log_inv r =
      (commitIndex r = of_nat (length (log r)) \<and> lastApplied r = of_nat (length (log r)) \<and>
      (\<forall>i < length (log r). Index (log r ! i) = of_nat (i + 1)))"
    by (simp add: log_inv_def)
qed (simp_all add: log_inv_New log_inv_Apply log_inv_run Apply_fields)

theorem raft_log_invariant_witness:
  "log_inv new_node \<and>
   log_inv (snd (Apply new_node insert_cmd)) \<and>
   fst (Apply new_node insert_cmd) = None \<and>
   commitIndex (snd (Apply (snd (Apply new_node insert_cmd)) insert_cmd)) = 2 \<and>
   lastApplied (snd (Apply (snd (Apply new_node insert_cmd)) insert_cmd)) = 2 \<and>
   map Index (log (snd (Apply (snd (Apply new_node insert_cmd)) insert_cmd))) = [1, 2]"
proof -
  note w = raft_log_invariant [of "''node1''" 9000 "''data''" empty_db NewCRDTStore,
      where ?'c = command, folded new_node_def]
  have a: "log_inv new_node"
    by (rule w [THEN conjunct1])
  have b: "log_inv (snd (Apply new_node insert_cmd))"
    by (rule w [THEN conjunct2, THEN conjunct1, rule_format, OF a])
  have c: "fst (Apply new_node insert_cmd) = None"
    by (rule w [THEN conjunct2, THEN conjunct2, THEN conjunct1, rule_format])
  have d: "commitIndex (snd (Apply (snd (Apply new_node insert_cmd)) insert_cmd)) = 2"
    "lastApplied (snd (Apply (snd (Apply new_node insert_cmd)) insert_cmd)) = 2"
    "map Index (log (snd (Apply (snd (Apply new_node insert_cmd)) insert_cmd))) = [1, 2]"
    by (simp_all add: Apply_fields new_node_fields)
  from a b c d show ?thesis by blast
qed

text \<open>
  Claim C5, as the program has it. \<^verbatim>\<open>Apply\<close> does not look at the state of the node: on
  a follower, a candidate and a leader alike it returns the nil error, appends an entry
  with the current term, the next index and the command, sets the commit index and the
  last applied index to that index, and leaves the state, the term, the peers and every
  other field as they are. It returns the error only, not the index, and no not-leader
  error exists.
\<close>

theorem Apply_ignores_state:
  "fst (Apply (r\<lparr>state := s\<rparr>) command) = None \<and>
   log (snd (Apply (r\<lparr>state := s\<rparr>) command)) =
     log r @ [\<lparr>Term = currentTerm r, Index = of_nat (length (log r) + 1), Command = command\<rparr>] \<and>
   commitIndex (snd (Apply (r\<lparr>state := s\<rparr>) command)) = of_nat (length (log r) + 1) \<and>
   lastApplied (snd (Apply (r\<lparr>state := s\<rparr>) command)) = of_nat (length (log r) + 1) \<and>
   state (snd (Apply (r\<lparr>state := s\<rparr>) command)) = s \<and>
   currentTerm (snd (Apply (r\<lparr>state := s\<rparr>) command)) = currentTerm r \<and>
   peers (snd (Apply (r\<lparr>state := s\<rparr>) command)) = peers r \<and>
   snd (Apply (r\<lparr>state := s\<rparr>) command) =
     r\<lparr>state := s,
       log := log r @
         [\<lparr>Term = currentTerm r, Index = of_nat (length (log r) + 1), Command = command\<rparr>],
       commitIndex := of_nat (length (log r) + 1),
       lastApplied := of_nat (length (log r) + 1)\<rparr>"
  by (simp add: Apply_fields) (simp add: Apply_def Let_def)

text \<open>A new node is a follower; \<^verbatim>\<open>Apply\<close> on it succeeds and appends the entry.\<close>

theorem Apply_on_follower_counterexample:
  "state new_node = Follower \<and> state new_node \<noteq> Leader \<and>
   fst (Apply new_node insert_cmd) = None \<and>
   log (snd (Apply new_node insert_cmd)) = [\<lparr>Term = 0, Index = 1, Command = insert_cmd\<rparr>]"
  by (simp add: Apply_fields new_node_fields)

text \<open>
  Claim C8, evaluated on the program. \<^verbatim>\<open>Apply\<close> of the insert command on a new node
  succeeds and sets the commit index and the last applied index to 1, and both stores
  are as they were: the history of the key is empty, the query finds nothing, and the
  CRDT store is the new one. \<^verbatim>\<open>Apply\<close> writes the log and the two indices only.
\<close>

theorem Apply_leaves_stores_untouched:
  "fst (Apply new_node insert_cmd) = None \<and>
   commitIndex (snd (Apply new_node insert_cmd)) = 1 \<and>
   lastApplied (snd (Apply new_node insert_cmd)) = 1 \<and>
   db (snd (Apply new_node insert_cmd)) = empty_db \<and>
   GetHistory (db (snd (Apply new_node insert_cmd))) ''p'' = Some [] \<and>
   QueryTemporal (db (snd (Apply new_node insert_cmd))) ''p'' 20 3 = None \<and>
   crdtStore (snd (Apply new_node insert_cmd)) = NewCRDTStore"
  by (simp add: Apply_fields new_node_fields)
     (simp add: GetHistory_def QueryTemporal_def QueryTemporal_record_def empty_db_def)

section \<open>Lemmas on the counters\<close>

lemma count_at_update:
  "count_at (AList.update k v m) n = (if n = k then v else count_at m n)"
  by (simp add: count_at_def update_conv')

lemma wf_counts_update: "wf_counts m \<Longrightarrow> wf_counts (AList.update k v m)"
  by (simp add: wf_counts_def distinct_update)

lemma nonneg_counts_update:
  "nonneg_counts m \<Longrightarrow> 0 \<le>s v \<Longrightarrow> nonneg_counts (AList.update k v m)"
  by (induction m) (auto simp: nonneg_counts_def)

lemma nonneg_count_at: "nonneg_counts m \<Longrightarrow> 0 \<le>s count_at m n"
proof (cases "map_of m n")
  case None
  then show ?thesis by (simp add: count_at_def)
next
  case (Some c)
  assume nn: "nonneg_counts m"
  from Some have "(n, c) \<in> set m" by (rule map_of_SomeD)
  with nn have "0 \<le>s c" by (auto simp: nonneg_counts_def list_all_iff)
  with Some show ?thesis by (simp add: count_at_def)
qed

lemma smax_signed_max: "smax a b = signed.max a b"
  by (auto simp: smax_def signed.max_def)

lemma smax_commute: "smax a b = smax b a"
  by (simp add: smax_signed_max signed.max.commute)

lemma smax_assoc: "smax (smax a b) c = smax a (smax b c)"
  by (simp add: smax_signed_max signed.max.assoc)

lemma smax_idem: "smax a a = a"
  by (simp add: smax_def)

lemma smax_zero: "0 \<le>s a \<Longrightarrow> smax a 0 = a"
  by (auto simp: smax_def)

lemma merge_counts_lookup:
  "wf_counts other \<Longrightarrow>
     count_at (merge_counts other local) n =
       (case map_of other n of
          None \<Rightarrow> count_at local n
        | Some c \<Rightarrow> smax (count_at local n) c)"
proof (induction other arbitrary: local)
  case Nil
  show ?case by simp
next
  case (Cons p rest)
  obtain k c where p: "p = (k, c)" by (cases p)
  from Cons.prems p have wf: "wf_counts rest" and fresh: "map_of rest k = None"
    by (auto simp: wf_counts_def map_of_eq_None_iff)
  have ih: "\<And>l. count_at (merge_counts rest l) n =
       (case map_of rest n of None \<Rightarrow> count_at l n | Some c \<Rightarrow> smax (count_at l n) c)"
    by (rule Cons.IH [OF wf])
  show ?case
  proof (cases "n = k")
    case True
    with fresh p ih show ?thesis
      by (simp add: count_at_update smax_def)
  next
    case False
    with p ih show ?thesis
      by (simp add: count_at_update split: option.splits)
  qed
qed

lemma merge_counts_max:
  assumes "wf_counts other" and "nonneg_counts local"
  shows "count_at (merge_counts other local) n = smax (count_at local n) (count_at other n)"
proof (cases "map_of other n")
  case None
  with assms show ?thesis
    by (simp add: merge_counts_lookup count_at_def [of other] smax_zero nonneg_count_at)
next
  case (Some c)
  with assms show ?thesis
    by (simp add: merge_counts_lookup count_at_def [of other])
qed

lemma wf_merge_counts: "wf_counts local \<Longrightarrow> wf_counts (merge_counts other local)"
  by (induction other arbitrary: local) (auto simp: wf_counts_update)

lemma nonneg_merge_counts:
  "nonneg_counts local \<Longrightarrow> nonneg_counts (merge_counts other local)"
proof (induction other arbitrary: local)
  case Nil
  then show ?case by simp
next
  case (Cons p rest)
  obtain k c where p: "p = (k, c)" by (cases p)
  have "nonneg_counts (AList.update k c local)" if "count_at local k <s c"
  proof -
    have "0 \<le>s count_at local k" using Cons.prems by (rule nonneg_count_at)
    with that have "0 \<le>s c" by simp
    with Cons.prems show ?thesis by (rule nonneg_counts_update)
  qed
  with Cons p show ?case by simp
qed


lemma merge_counts_noop:
  "\<forall>p \<in> set other. \<not> count_at local (fst p) <s snd p \<Longrightarrow> merge_counts other local = local"
  by (induction other) auto

lemma sum_counts_acc: "sum_counts m t = t + sum_list (map snd m)"
  by (induction m t rule: sum_counts.induct) (simp_all add: add.assoc)

lemma sum_list_counts:
  "wf_counts m \<Longrightarrow> sum_list (map snd m) = (\<Sum>n \<in> fst ` set m. count_at m n)"
proof (induction m)
  case Nil
  show ?case by simp
next
  case (Cons p rest)
  obtain k c where p: "p = (k, c)" by (cases p)
  from Cons.prems p have wf: "wf_counts rest" and fresh: "k \<notin> fst ` set rest"
    by (auto simp: wf_counts_def)
  have "(\<Sum>n \<in> fst ` set rest. count_at ((k, c) # rest) n) = (\<Sum>n \<in> fst ` set rest. count_at rest n)"
    using fresh by (intro sum.cong) (auto simp: count_at_def)
  with fresh p show ?case
    by (simp add: Cons.IH [OF wf]) (simp add: count_at_def)
qed

lemma count_at_outside: "n \<notin> fst ` set m \<Longrightarrow> count_at m n = 0"
  by (simp add: count_at_def map_of_eq_None_iff [THEN iffD2])

lemma sum_counts_over:
  assumes "wf_counts m" and "finite S" and "fst ` set m \<subseteq> S"
  shows "sum_counts m 0 = (\<Sum>n \<in> S. count_at m n)"
proof -
  have "(\<Sum>n \<in> fst ` set m. count_at m n) = (\<Sum>n \<in> S. count_at m n)"
    using assms(2,3) by (intro sum.mono_neutral_left) (auto simp: count_at_outside)
  with assms(1) show ?thesis
    by (simp add: sum_counts_acc sum_list_counts)
qed

lemma sum_counts_cong:
  assumes "wf_counts a" and "wf_counts b" and "\<And>n. count_at a n = count_at b n"
  shows "sum_counts a 0 = sum_counts b 0"
proof -
  let ?S = "fst ` set a \<union> fst ` set b"
  have "sum_counts a 0 = (\<Sum>n \<in> ?S. count_at a n)"
    using assms(1) by (intro sum_counts_over) auto
  moreover have "sum_counts b 0 = (\<Sum>n \<in> ?S. count_at b n)"
    using assms(2) by (intro sum_counts_over) auto
  ultimately show ?thesis by (simp add: assms(3))
qed

lemma counts_of_New: "counts_of NewCRDTStore key = []"
  by (simp add: counts_of_def counter_of_def NewCRDTStore_def)

lemma counts_of_Increment:
  "counts_of (IncrementCounter c key node delta) k =
     (if k = key
      then AList.update node (count_at (counts_of c key) node + delta) (counts_of c key)
      else counts_of c k)"
  by (simp add: counts_of_def counter_of_def IncrementCounter_def Let_def)

lemma counts_of_Merge:
  "counts_of (MergeCounter c key other) k =
     (if k = key then merge_counts (NodeCounts other) (counts_of c key) else counts_of c k)"
  by (simp add: counts_of_def counter_of_def MergeCounter_def Let_def)

lemma GetCounter_counts: "GetCounter c key = sum_counts (counts_of c key) 0"
  by (simp add: GetCounter_def counts_of_def counter_of_def split: option.splits)

lemma sadd_nonneg:
  assumes "0 \<le>s (a :: int64)" and "0 \<le>s d" and "sint a + sint d < 2 ^ 63"
  shows "0 \<le>s a + d"
proof -
  from assms have r: "0 \<le> sint a + sint d" "sint a + sint d < 2 ^ 63"
    by (simp_all add: word_sle_eq)
  have "sint (a + d) = signed_take_bit 63 (sint a + sint d)"
    by (simp add: sint_word_add)
  also have "\<dots> = sint a + sint d"
    using r by (simp add: signed_take_bit_int_eq_self)
  finally show ?thesis using r by (simp add: word_sle_eq)
qed

lemma tally_counts: "counts_of tally_store ''v'' = [(''n1'', 3), (''n2'', 2)]"
  by (simp add: tally_store_def counts_of_Increment counts_of_New count_at_def)

lemma wrapped_counts: "counts_of wrapped_store ''v'' = [(''n1'', - 0x8000000000000000)]"
  by (simp add: wrapped_store_def counts_of_Increment counts_of_New count_at_def)


lemma merge_counts_twice:
  assumes "wf_counts other"
  shows "merge_counts other (merge_counts other local) = merge_counts other local"
proof (rule merge_counts_noop, rule ballI)
  fix p assume "p \<in> set other"
  with assms have "map_of other (fst p) = Some (snd p)"
    by (simp add: wf_counts_def)
  with assms have "count_at (merge_counts other local) (fst p) = smax (count_at local (fst p)) (snd p)"
    by (simp add: merge_counts_lookup)
  then show "\<not> count_at (merge_counts other local) (fst p) <s snd p"
    by (simp add: smax_def)
qed

lemma MergeCounter_twice:
  assumes "wf_counts (NodeCounts other)"
  shows "MergeCounter (MergeCounter c key other) key other = MergeCounter c key other"
proof -
  have "merge_counts (NodeCounts other) (merge_counts (NodeCounts other) (counts_of c key)) =
        merge_counts (NodeCounts other) (counts_of c key)"
    using assms by (rule merge_counts_twice)
  then show ?thesis
    by (simp add: MergeCounter_def Let_def counter_of_def counts_of_def)
qed

lemma wf_counts_Merge:
  "wf_counts (counts_of c key) \<Longrightarrow> wf_counts (counts_of (MergeCounter c key other) key)"
  by (simp add: counts_of_Merge wf_merge_counts)

lemma nonneg_counts_Merge:
  "nonneg_counts (counts_of c key) \<Longrightarrow> nonneg_counts (counts_of (MergeCounter c key other) key)"
  by (simp add: counts_of_Merge nonneg_merge_counts)

lemma wf_counts_Increment:
  "wf_counts (counts_of c key) \<Longrightarrow> wf_counts (counts_of (IncrementCounter c key node delta) key)"
  by (simp add: counts_of_Increment wf_counts_update)

lemma nonneg_counts_Increment:
  assumes "nonneg_counts (counts_of c key)" and "0 \<le>s delta"
    and "sint (count_at (counts_of c key) node) + sint delta < 2 ^ 63"
  shows "nonneg_counts (counts_of (IncrementCounter c key node delta) key)"
proof -
  have "0 \<le>s count_at (counts_of c key) node"
    using assms(1) by (rule nonneg_count_at)
  then have "0 \<le>s count_at (counts_of c key) node + delta"
    using assms(2,3) by (rule sadd_nonneg)
  with assms(1) show ?thesis
    by (simp add: counts_of_Increment nonneg_counts_update)
qed


lemma smax_swap: "smax (smax p q) r = smax (smax p r) q"
  by (metis smax_assoc smax_commute)

lemma merge_counts_two_orders:
  assumes "wf_counts x" and "wf_counts y"
  shows "count_at (merge_counts y (merge_counts x a)) n =
         count_at (merge_counts x (merge_counts y a)) n"
  using assms by (simp add: merge_counts_lookup smax_swap split: option.splits)

lemma merge_counts_assoc:
  assumes "wf_counts x" and "wf_counts y" and "nonneg_counts a"
  shows "count_at (merge_counts y (merge_counts x a)) n =
         count_at (merge_counts (merge_counts y x) a) n"
proof -
  have l: "count_at (merge_counts x a) n = smax (count_at a n) (count_at x n)"
    using assms(1,3) by (rule merge_counts_max)
  have r: "count_at (merge_counts (merge_counts y x) a) n =
           smax (count_at a n) (count_at (merge_counts y x) n)"
    using wf_merge_counts [OF assms(1)] assms(3) by (rule merge_counts_max)
  show ?thesis
    using assms(2) by (simp add: r merge_counts_lookup [of y] l smax_assoc split: option.splits)
qed


section \<open>Merging counters\<close>

text \<open>
  Claim C3, as the program has it. The component maps are Go maps, with one entry for each
  node. For every node that the remote map holds, \<^verbatim>\<open>MergeCounter\<close> leaves the larger of
  the local component (0 when it is missing) and the remote one, and it leaves every
  other local component as it is. Whatever the signs of the components: a counter
  delivered twice, or a replica's own counter, changes nothing, and two counters
  delivered in either order give the same components and the same total. When the local
  map has no negative component, the result is for every node the larger of the local
  and the remote component (a missing component counts as 0), and merging two counters
  one after the other gives the components of merging their merge. When the maps of two
  replicas have no negative component, the replicas agree on every component and on the
  total after they have merged each other's counter.
\<close>

theorem MergeCounter_laws:
  "(wf_counts (NodeCounts x) \<longrightarrow>
      (\<forall>n. count_at (counts_of (MergeCounter A key x) key) n =
          (case map_of (NodeCounts x) n of
             None \<Rightarrow> count_at (counts_of A key) n
           | Some c \<Rightarrow> smax (count_at (counts_of A key) n) c))) \<and>
   (wf_counts (NodeCounts x) \<and> nonneg_counts (counts_of A key) \<longrightarrow>
      (\<forall>n. count_at (counts_of (MergeCounter A key x) key) n =
          smax (count_at (counts_of A key) n) (count_at (NodeCounts x) n))) \<and>
   (wf_counts (counts_of A key) \<and> wf_counts (counts_of B key) \<and>
    nonneg_counts (counts_of A key) \<and> nonneg_counts (counts_of B key) \<longrightarrow>
      (\<forall>n. count_at (counts_of (MergeCounter A key (counter_of B key)) key) n =
           count_at (counts_of (MergeCounter B key (counter_of A key)) key) n) \<and>
      GetCounter (MergeCounter A key (counter_of B key)) key =
        GetCounter (MergeCounter B key (counter_of A key)) key) \<and>
   (wf_counts (NodeCounts x) \<and> wf_counts (NodeCounts y) \<and> nonneg_counts (counts_of A key) \<longrightarrow>
      (\<forall>n. count_at (counts_of (MergeCounter (MergeCounter A key x) key y) key) n =
           count_at (counts_of (MergeCounter A key
              (x\<lparr>NodeCounts := merge_counts (NodeCounts y) (NodeCounts x)\<rparr>)) key) n)) \<and>
   (wf_counts (NodeCounts x) \<and> wf_counts (NodeCounts y) \<longrightarrow>
      (\<forall>n. count_at (counts_of (MergeCounter (MergeCounter A key x) key y) key) n =
           count_at (counts_of (MergeCounter (MergeCounter A key y) key x) key) n)) \<and>
   (wf_counts (counts_of A key) \<and> wf_counts (NodeCounts x) \<and> wf_counts (NodeCounts y) \<longrightarrow>
      GetCounter (MergeCounter (MergeCounter A key x) key y) key =
        GetCounter (MergeCounter (MergeCounter A key y) key x) key) \<and>
   (wf_counts (NodeCounts x) \<longrightarrow>
      MergeCounter (MergeCounter A key x) key x = MergeCounter A key x) \<and>
   (wf_counts (counts_of A key) \<longrightarrow>
      MergeCounter A key (counter_of A key) =
        A\<lparr>gcounter := (gcounter A)(key \<mapsto> counter_of A key)\<rparr>)"
proof -
  let ?a = "counts_of A key" and ?b = "counts_of B key"
  let ?x = "NodeCounts x" and ?y = "NodeCounts y"
  have bx: "NodeCounts (counter_of B key) = ?b" and ax: "NodeCounts (counter_of A key) = ?a"
    by (simp_all add: counts_of_def)
  have c0: "\<forall>n. count_at (counts_of (MergeCounter A key x) key) n =
          (case map_of ?x n of None \<Rightarrow> count_at ?a n | Some c \<Rightarrow> smax (count_at ?a n) c)"
    if "wf_counts ?x"
    using that by (simp add: counts_of_Merge merge_counts_lookup)
  have c1: "\<forall>n. count_at (counts_of (MergeCounter A key x) key) n =
            smax (count_at ?a n) (count_at ?x n)"
    if "wf_counts ?x \<and> nonneg_counts ?a"
    using that by (simp add: counts_of_Merge merge_counts_max)
  have c2: "\<forall>n. count_at (counts_of (MergeCounter A key (counter_of B key)) key) n =
          count_at (counts_of (MergeCounter B key (counter_of A key)) key) n"
    if "wf_counts ?a \<and> wf_counts ?b \<and> nonneg_counts ?a \<and> nonneg_counts ?b"
    using that by (simp add: counts_of_Merge ax bx merge_counts_max smax_commute)
  have c3: "GetCounter (MergeCounter A key (counter_of B key)) key =
       GetCounter (MergeCounter B key (counter_of A key)) key"
    if h: "wf_counts ?a \<and> wf_counts ?b \<and> nonneg_counts ?a \<and> nonneg_counts ?b"
    unfolding GetCounter_counts
  proof (rule sum_counts_cong)
    show "wf_counts (counts_of (MergeCounter A key (counter_of B key)) key)"
      using h by (intro wf_counts_Merge) simp
    show "wf_counts (counts_of (MergeCounter B key (counter_of A key)) key)"
      using h by (intro wf_counts_Merge) simp
    show "\<And>n. count_at (counts_of (MergeCounter A key (counter_of B key)) key) n =
          count_at (counts_of (MergeCounter B key (counter_of A key)) key) n"
      using c2 [OF h] by blast
  qed
  have c4: "\<forall>n. count_at (counts_of (MergeCounter (MergeCounter A key x) key y) key) n =
          count_at (counts_of (MergeCounter A key
             (x\<lparr>NodeCounts := merge_counts ?y ?x\<rparr>)) key) n"
    if "wf_counts ?x \<and> wf_counts ?y \<and> nonneg_counts ?a"
    using that by (simp add: counts_of_Merge merge_counts_assoc)
  have c5: "\<forall>n. count_at (counts_of (MergeCounter (MergeCounter A key x) key y) key) n =
          count_at (counts_of (MergeCounter (MergeCounter A key y) key x) key) n"
    if "wf_counts ?x \<and> wf_counts ?y"
    using that by (simp add: counts_of_Merge merge_counts_two_orders)
  have c6: "GetCounter (MergeCounter (MergeCounter A key x) key y) key =
       GetCounter (MergeCounter (MergeCounter A key y) key x) key"
    if h: "wf_counts ?a \<and> wf_counts ?x \<and> wf_counts ?y"
    unfolding GetCounter_counts
  proof (rule sum_counts_cong)
    show "wf_counts (counts_of (MergeCounter (MergeCounter A key x) key y) key)"
      using h by (intro wf_counts_Merge) simp
    show "wf_counts (counts_of (MergeCounter (MergeCounter A key y) key x) key)"
      using h by (intro wf_counts_Merge) simp
    show "\<And>n. count_at (counts_of (MergeCounter (MergeCounter A key x) key y) key) n =
          count_at (counts_of (MergeCounter (MergeCounter A key y) key x) key) n"
      using c5 h by blast
  qed
  have c7: "MergeCounter (MergeCounter A key x) key x = MergeCounter A key x"
    if "wf_counts ?x"
    using that by (rule MergeCounter_twice)
  have c8: "MergeCounter A key (counter_of A key) =
      A\<lparr>gcounter := (gcounter A)(key \<mapsto> counter_of A key)\<rparr>" if "wf_counts ?a"
  proof -
    have "merge_counts ?a ?a = ?a"
      using that by (intro merge_counts_noop) (auto simp: wf_counts_def count_at_def)
    then show ?thesis
      by (simp add: MergeCounter_def Let_def counts_of_def)
  qed
  from c0 c1 c2 c3 c4 c5 c6 c7 c8 show ?thesis by blast
qed

lemma remote_counts: "counts_of remote_store ''v'' = [(''n1'', 1), (''n2'', 5)]"
  by (simp add: remote_store_def counts_of_Merge counts_of_New remote_tally_def count_at_def
        word_sless_alt)

text \<open>
  The counter scenario: the local components 3 and 2 and the remote components 1 and 5
  merge to 3 and 5 on either replica, with total 8; with the third counter delivered
  before or after the remote one the total is 12.
\<close>

theorem MergeCounter_laws_witness:
  "wf_counts (counts_of tally_store ''v'') \<and> nonneg_counts (counts_of tally_store ''v'') \<and>
   wf_counts (counts_of remote_store ''v'') \<and> nonneg_counts (counts_of remote_store ''v'') \<and>
   wf_counts (NodeCounts remote_tally) \<and> wf_counts (NodeCounts third_tally) \<and>
   counts_of (MergeCounter tally_store ''v'' remote_tally) ''v'' = [(''n1'', 3), (''n2'', 5)] \<and>
   count_at (counts_of (MergeCounter tally_store ''v'' remote_tally) ''v'') ''n2'' =
     smax (count_at (counts_of tally_store ''v'') ''n2'') (count_at (NodeCounts remote_tally) ''n2'') \<and>
   GetCounter (MergeCounter tally_store ''v'' (counter_of remote_store ''v'')) ''v'' = 8 \<and>
   GetCounter (MergeCounter remote_store ''v'' (counter_of tally_store ''v'')) ''v'' = 8 \<and>
   GetCounter (MergeCounter (MergeCounter tally_store ''v'' remote_tally) ''v'' third_tally) ''v'' = 12 \<and>
   GetCounter (MergeCounter (MergeCounter tally_store ''v'' third_tally) ''v'' remote_tally) ''v'' = 12 \<and>
   MergeCounter (MergeCounter tally_store ''v'' remote_tally) ''v'' remote_tally =
     MergeCounter tally_store ''v'' remote_tally"
proof -
  have h: "wf_counts (counts_of tally_store ''v'')" "nonneg_counts (counts_of tally_store ''v'')"
    "wf_counts (counts_of remote_store ''v'')" "nonneg_counts (counts_of remote_store ''v'')"
    "wf_counts (NodeCounts remote_tally)" "wf_counts (NodeCounts third_tally)"
    by (simp_all add: tally_counts remote_counts remote_tally_def third_tally_def
          wf_counts_def nonneg_counts_def word_sle_eq)
  note w = MergeCounter_laws [of remote_tally tally_store "''v''" remote_store third_tally]
  have r: "NodeCounts (counter_of remote_store ''v'') = [(''n1'', 1), (''n2'', 5)]"
    using remote_counts by (simp add: counts_of_def)
  have m: "counts_of (MergeCounter tally_store ''v'' remote_tally) ''v'' = [(''n1'', 3), (''n2'', 5)]"
    by (simp add: counts_of_Merge tally_counts remote_tally_def count_at_def word_sless_alt)
  have mx: "count_at (counts_of (MergeCounter tally_store ''v'' remote_tally) ''v'') ''n2'' =
     smax (count_at (counts_of tally_store ''v'') ''n2'') (count_at (NodeCounts remote_tally) ''n2'')"
    using w [THEN conjunct2, THEN conjunct1] h(5,2) by blast
  have a: "GetCounter (MergeCounter tally_store ''v'' (counter_of remote_store ''v'')) ''v'' = 8"
    by (simp add: GetCounter_counts counts_of_Merge tally_counts r count_at_def word_sless_alt)
  have "GetCounter (MergeCounter tally_store ''v'' (counter_of remote_store ''v'')) ''v'' =
        GetCounter (MergeCounter remote_store ''v'' (counter_of tally_store ''v'')) ''v''"
    using w [THEN conjunct2, THEN conjunct2, THEN conjunct1] h(1,3,2,4) by blast
  with a have b: "GetCounter (MergeCounter remote_store ''v'' (counter_of tally_store ''v'')) ''v'' = 8"
    by simp
  have c: "GetCounter (MergeCounter (MergeCounter tally_store ''v'' remote_tally) ''v'' third_tally) ''v'' = 12"
    by (simp add: GetCounter_counts counts_of_Merge tally_counts remote_tally_def third_tally_def
          count_at_def word_sless_alt)
  have "GetCounter (MergeCounter (MergeCounter tally_store ''v'' remote_tally) ''v'' third_tally) ''v'' =
        GetCounter (MergeCounter (MergeCounter tally_store ''v'' third_tally) ''v'' remote_tally) ''v''"
    using w [THEN conjunct2, THEN conjunct2, THEN conjunct2, THEN conjunct2, THEN conjunct2,
        THEN conjunct1] h(1,5,6) by blast
  with c have d: "GetCounter (MergeCounter (MergeCounter tally_store ''v'' third_tally) ''v'' remote_tally) ''v'' = 12"
    by simp
  have e: "MergeCounter (MergeCounter tally_store ''v'' remote_tally) ''v'' remote_tally =
     MergeCounter tally_store ''v'' remote_tally"
    using w [THEN conjunct2, THEN conjunct2, THEN conjunct2, THEN conjunct2, THEN conjunct2,
        THEN conjunct2, THEN conjunct1] h(5) by blast
  from h m mx a b c d e show ?thesis by blast
qed

text \<open>
  Two increments by non-negative amounts leave a negative component. The replica that
  holds it and a new replica merge each other's counter: the totals differ, and the
  merged component is not the larger of the two. With the empty counter and then the
  counter of -1 delivered to that replica the component is -1; with their merge
  delivered it stays as it was.
\<close>

theorem MergeCounter_negative_component_counterexample:
  "0 \<le>s (0x7FFFFFFFFFFFFFFF :: int64) \<and> 0 \<le>s (1 :: int64) \<and>
   counts_of wrapped_store ''v'' = [(''n1'', - 0x8000000000000000)] \<and>
   GetCounter (MergeCounter wrapped_store ''v'' (counter_of fresh_store ''v'')) ''v'' =
     - 0x8000000000000000 \<and>
   GetCounter (MergeCounter fresh_store ''v'' (counter_of wrapped_store ''v'')) ''v'' = 0 \<and>
   count_at (counts_of (MergeCounter wrapped_store ''v'' (counter_of fresh_store ''v'')) ''v'') ''n1''
     = - 0x8000000000000000 \<and>
   smax (count_at (counts_of wrapped_store ''v'') ''n1'')
        (count_at (NodeCounts (counter_of fresh_store ''v'')) ''n1'') = 0 \<and>
   count_at (counts_of (MergeCounter (MergeCounter wrapped_store ''v'' (counter_of fresh_store ''v''))
       ''v'' negative_tally) ''v'') ''n1'' = - 1 \<and>
   count_at (counts_of (MergeCounter wrapped_store ''v''
       ((counter_of fresh_store ''v'')\<lparr>NodeCounts :=
          merge_counts (NodeCounts negative_tally) (NodeCounts (counter_of fresh_store ''v''))\<rparr>))
       ''v'') ''n1'' = - 0x8000000000000000"
proof -
  have f: "NodeCounts (counter_of fresh_store ''v'') = []"
    using counts_of_New [of "''v''"] by (simp add: counts_of_def fresh_store_def)
  have w: "NodeCounts (counter_of wrapped_store ''v'') = [(''n1'', - 0x8000000000000000)]"
    using wrapped_counts by (simp add: counts_of_def)
  have e: "counts_of fresh_store ''v'' = []"
    by (simp add: fresh_store_def counts_of_New)
  show ?thesis
    by (simp add: GetCounter_counts counts_of_Merge wrapped_counts f w e count_at_def smax_def
          negative_tally_def word_sless_alt word_sle_eq)
qed

section \<open>Increments\<close>

text \<open>
  Claim C6, evaluated on the program. In the counter scenario the component of n1 is 3 and
  the total is 5. \<^verbatim>\<open>IncrementCounter\<close> with delta -1 for n1 returns nothing, so no error,
  and the store has changed: the component of n1 is 2, smaller than before, and the
  total is 4.
\<close>

theorem IncrementCounter_negative_delta:
  "(- 1 :: int64) <s 0 \<and>
   counts_of tally_store ''v'' = [(''n1'', 3), (''n2'', 2)] \<and>
   GetCounter tally_store ''v'' = 5 \<and>
   counts_of (IncrementCounter tally_store ''v'' ''n1'' (- 1)) ''v'' = [(''n1'', 2), (''n2'', 2)] \<and>
   GetCounter (IncrementCounter tally_store ''v'' ''n1'' (- 1)) ''v'' = 4 \<and>
   count_at (counts_of (IncrementCounter tally_store ''v'' ''n1'' (- 1)) ''v'') ''n1'' <s
     count_at (counts_of tally_store ''v'') ''n1''"
  by (simp add: GetCounter_counts counts_of_Increment tally_counts count_at_def word_sless_alt)

section \<open>Last-writer-wins registers\<close>

lemma stamp_less_irrefl: "\<not> stamp_less p p"
  by (simp add: stamp_less_def)

lemma stamp_less_trans: "stamp_less p q \<Longrightarrow> stamp_less q r \<Longrightarrow> stamp_less p r"
  by (auto simp: stamp_less_def)

lemma stamp_less_total: "\<not> stamp_less p q \<Longrightarrow> \<not> stamp_less q p \<Longrightarrow> p = q"
  by (auto simp: stamp_less_def prod_eq_iff)

lemma stamp_not_less_trans:
  "\<not> stamp_less p q \<Longrightarrow> \<not> stamp_less q r \<Longrightarrow> \<not> stamp_less p r"
  by (auto simp: stamp_less_def)

lemma lww_MergeLWW:
  "lww (MergeLWW c key other) k = (if k = key then lww_step (lww c key) other else lww c k)"
  by (simp add: MergeLWW_def lww_step_def stamp_less_def stamp_def eq_commute [of "Timestamp other"]
        split: option.splits)

lemma lww_SetLWW:
  "lww (SetLWW c key v t n) k =
     (if k = key then lww_step (lww c key) \<lparr>Value = v, Timestamp = t, NodeID = n\<rparr> else lww c k)"
  by (simp add: SetLWW_def lww_step_def stamp_less_def stamp_def eq_commute [of t]
        split: option.splits)

lemma lww_apply_call:
  "lww (apply_call c x) k =
     (if k = call_key x then lww_step (lww c k) (call_reg x) else lww c k)"
  by (cases x) (simp_all add: lww_MergeLWW lww_SetLWW)

lemma lww_run_calls:
  "lww (run_calls c xs) k = foldl lww_step (lww c k) (regs_for k xs)"
  by (induction xs arbitrary: c) (simp_all add: regs_for_def lww_apply_call)

lemma lww_step_Some:
  "lww_step (Some l) a = Some (if stamp_less (stamp l) (stamp a) then a else l)"
  by (simp add: lww_step_def)

lemma foldl_lww_step_Some:
  "\<exists>w. foldl lww_step (Some l) rs = Some w \<and> w \<in> set (l # rs) \<and>
       (\<forall>x \<in> set (l # rs). \<not> stamp_less (stamp w) (stamp x)) \<and>
       find (\<lambda>r. stamp r = stamp w) (l # rs) = Some w"
proof (induction rs arbitrary: l)
  case Nil
  show ?case by (simp add: stamp_less_irrefl)
next
  case (Cons a rs)
  show ?case
  proof (cases "stamp_less (stamp l) (stamp a)")
    case True
    from Cons [of a] obtain w where w: "foldl lww_step (Some a) rs = Some w" "w \<in> set (a # rs)"
      "\<forall>x \<in> set (a # rs). \<not> stamp_less (stamp w) (stamp x)"
      "find (\<lambda>r. stamp r = stamp w) (a # rs) = Some w"
      by blast
    from w(3) have wa: "\<not> stamp_less (stamp w) (stamp a)" by simp
    have wl: "\<not> stamp_less (stamp w) (stamp l)"
      using True wa stamp_less_trans by blast
    have ne: "stamp l \<noteq> stamp w"
      using True wa by auto
    have 1: "foldl lww_step (Some l) (a # rs) = Some w"
      using True w(1) by (simp add: lww_step_Some)
    have 2: "w \<in> set (l # a # rs)"
      using w(2) by simp
    have 3: "\<forall>x \<in> set (l # a # rs). \<not> stamp_less (stamp w) (stamp x)"
      using w(3) wl by simp
    have 4: "find (\<lambda>r. stamp r = stamp w) (l # a # rs) = Some w"
      using w(4) ne by simp
    from 1 2 3 4 show ?thesis by blast
  next
    case False
    from Cons [of l] obtain w where w: "foldl lww_step (Some l) rs = Some w" "w \<in> set (l # rs)"
      "\<forall>x \<in> set (l # rs). \<not> stamp_less (stamp w) (stamp x)"
      "find (\<lambda>r. stamp r = stamp w) (l # rs) = Some w"
      by blast
    from w(3) have wl: "\<not> stamp_less (stamp w) (stamp l)" by simp
    have wa: "\<not> stamp_less (stamp w) (stamp a)"
      using wl False by (rule stamp_not_less_trans)
    have fa: "stamp a \<noteq> stamp w" if "stamp l \<noteq> stamp w"
    proof
      assume "stamp a = stamp w"
      with False have "\<not> stamp_less (stamp l) (stamp w)" by simp
      with wl have "stamp w = stamp l" by (rule stamp_less_total)
      with that show False by simp
    qed
    have 1: "foldl lww_step (Some l) (a # rs) = Some w"
      using False w(1) by (simp add: lww_step_Some)
    have 2: "w \<in> set (l # a # rs)"
      using w(2) by auto
    have 3: "\<forall>x \<in> set (l # a # rs). \<not> stamp_less (stamp w) (stamp x)"
      using w(3) wa by simp
    have 4: "find (\<lambda>r. stamp r = stamp w) (l # a # rs) = Some w"
      using w(4) fa by (cases "stamp l = stamp w") simp_all
    from 1 2 3 4 show ?thesis by blast
  qed
qed

lemma foldl_lww_step_None:
  assumes "rs \<noteq> []"
  shows "\<exists>w. foldl lww_step None rs = Some w \<and> w \<in> set rs \<and>
       (\<forall>x \<in> set rs. \<not> stamp_less (stamp w) (stamp x)) \<and>
       find (\<lambda>r. stamp r = stamp w) rs = Some w"
proof -
  from assms obtain a rest where rs: "rs = a # rest" by (cases rs) auto
  have "foldl lww_step None rs = foldl lww_step (Some a) rest"
    by (simp add: rs lww_step_def)
  with foldl_lww_step_Some [of a rest] rs show ?thesis by simp
qed

lemma GetLWW_lww: "GetLWW c key = map_option LWWRegister.Value (lww c key)"
  by (simp add: GetLWW_def split: option.splits)

lemma set_regs_for: "set (regs_for key calls) = call_reg ` {x \<in> set calls. call_key x = key}"
  by (auto simp: regs_for_def)


text \<open>
  Claim C4, as the program has it. \<^verbatim>\<open>SetLWW\<close> and \<^verbatim>\<open>MergeLWW\<close> write the incoming register
  when no register is stored, or when its pair of timestamp and writer is strictly
  greater than the stored one (later timestamp, or the same timestamp and a greater
  writer); otherwise they leave the stored register. Hence, for calls run in any order
  on a store that has no register for the key, with at least one call on the key: the
  stored register is one the calls carry, no call on the key carries a greater pair, and
  of the registers with that greatest pair it is the one applied first. If all calls that
  carry the greatest pair carry the same value, then every order and duplication of the
  same set of calls ends with that value.
\<close>

theorem LWW_final_register:
  assumes "lww c key = None" and "\<exists>x \<in> set calls. call_key x = key"
  shows
    "(\<forall>c0 k other. lww (MergeLWW c0 k other) k =
        (case lww c0 k of
           None \<Rightarrow> Some other
         | Some local \<Rightarrow> if stamp_less (stamp local) (stamp other) then Some other else Some local)) \<and>
     (\<forall>c0 k v t n. lww (SetLWW c0 k v t n) k =
        (case lww c0 k of
           None \<Rightarrow> Some \<lparr>Value = v, Timestamp = t, NodeID = n\<rparr>
         | Some existing \<Rightarrow>
             if stamp_less (stamp existing) (t, n)
             then Some \<lparr>Value = v, Timestamp = t, NodeID = n\<rparr> else Some existing)) \<and>
     (\<exists>w. lww (run_calls c calls) key = Some w \<and>
          GetLWW (run_calls c calls) key = Some (LWWRegister.Value w) \<and>
          w \<in> call_reg ` {x \<in> set calls. call_key x = key} \<and>
          (\<forall>x \<in> set calls. call_key x = key \<longrightarrow> \<not> stamp_less (stamp w) (stamp (call_reg x))) \<and>
          find (\<lambda>r. stamp r = stamp w) (regs_for key calls) = Some w \<and>
          ((\<forall>x \<in> set calls. call_key x = key \<and> stamp (call_reg x) = stamp w \<longrightarrow>
               LWWRegister.Value (call_reg x) = LWWRegister.Value w) \<longrightarrow>
           (\<forall>calls'. set calls' = set calls \<longrightarrow>
               GetLWW (run_calls c calls') key = Some (LWWRegister.Value w))))"
proof (intro conjI allI)
  fix c0 :: "'b CRDTStore" and k other
  show "lww (MergeLWW c0 k other) k =
        (case lww c0 k of
           None \<Rightarrow> Some other
         | Some local \<Rightarrow> if stamp_less (stamp local) (stamp other) then Some other else Some local)"
    by (simp add: lww_MergeLWW lww_step_def)
next
  fix c0 :: "'c CRDTStore" and k v t n
  show "lww (SetLWW c0 k v t n) k =
        (case lww c0 k of
           None \<Rightarrow> Some \<lparr>Value = v, Timestamp = t, NodeID = n\<rparr>
         | Some existing \<Rightarrow>
             if stamp_less (stamp existing) (t, n)
             then Some \<lparr>Value = v, Timestamp = t, NodeID = n\<rparr> else Some existing)"
    by (simp add: lww_SetLWW lww_step_def stamp_def split: option.splits)
next
  from assms(2) have ne: "regs_for key calls \<noteq> []"
    by (auto simp: regs_for_def filter_empty_conv)
  from foldl_lww_step_None [OF ne] obtain w where
    w: "foldl lww_step None (regs_for key calls) = Some w" "w \<in> set (regs_for key calls)"
      "\<forall>x \<in> set (regs_for key calls). \<not> stamp_less (stamp w) (stamp x)"
      "find (\<lambda>r. stamp r = stamp w) (regs_for key calls) = Some w"
    by blast
  have 1: "lww (run_calls c calls) key = Some w"
    using w(1) assms(1) by (simp add: lww_run_calls)
  have 2: "GetLWW (run_calls c calls) key = Some (LWWRegister.Value w)"
    using 1 by (simp add: GetLWW_lww)
  have 3: "w \<in> call_reg ` {x \<in> set calls. call_key x = key}"
    using w(2) by (simp add: set_regs_for)
  have 4: "\<forall>x \<in> set calls. call_key x = key \<longrightarrow> \<not> stamp_less (stamp w) (stamp (call_reg x))"
    using w(3) by (auto simp: set_regs_for)
  have 5: "GetLWW (run_calls c calls') key = Some (LWWRegister.Value w)"
    if same: "\<forall>x \<in> set calls. call_key x = key \<and> stamp (call_reg x) = stamp w \<longrightarrow>
               LWWRegister.Value (call_reg x) = LWWRegister.Value w"
      and perm: "set calls' = set calls" for calls'
  proof -
    have eq: "set (regs_for key calls') = set (regs_for key calls)"
      using perm by (simp add: set_regs_for)
    with ne have ne': "regs_for key calls' \<noteq> []"
      by (metis set_empty)
    from foldl_lww_step_None [OF ne'] obtain w' where
      w': "foldl lww_step None (regs_for key calls') = Some w'" "w' \<in> set (regs_for key calls')"
        "\<forall>x \<in> set (regs_for key calls'). \<not> stamp_less (stamp w') (stamp x)"
      by blast
    have "\<not> stamp_less (stamp w) (stamp w')"
      using w(3) w'(2) eq by simp
    moreover have "\<not> stamp_less (stamp w') (stamp w)"
      using w'(3) w(2) eq by simp
    ultimately have st: "stamp w' = stamp w"
      by (rule stamp_less_total [symmetric])
    from w'(2) eq obtain x where "x \<in> set calls" "call_key x = key" "call_reg x = w'"
      by (auto simp: set_regs_for)
    with same st have "LWWRegister.Value w' = LWWRegister.Value w"
      by auto
    moreover have "lww (run_calls c calls') key = Some w'"
      using w'(1) assms(1) by (simp add: lww_run_calls)
    ultimately show ?thesis
      by (simp add: GetLWW_lww)
  qed
  from 1 2 3 4 w(4) 5
  show "\<exists>w. lww (run_calls c calls) key = Some w \<and>
          GetLWW (run_calls c calls) key = Some (LWWRegister.Value w) \<and>
          w \<in> call_reg ` {x \<in> set calls. call_key x = key} \<and>
          (\<forall>x \<in> set calls. call_key x = key \<longrightarrow> \<not> stamp_less (stamp w) (stamp (call_reg x))) \<and>
          find (\<lambda>r. stamp r = stamp w) (regs_for key calls) = Some w \<and>
          ((\<forall>x \<in> set calls. call_key x = key \<and> stamp (call_reg x) = stamp w \<longrightarrow>
               LWWRegister.Value (call_reg x) = LWWRegister.Value w) \<longrightarrow>
           (\<forall>calls'. set calls' = set calls \<longrightarrow>
               GetLWW (run_calls c calls') key = Some (LWWRegister.Value w)))"
    by blast
qed


lemma color_runs:
  "lww color_store ''c'' = None"
  "lww (run_calls color_store [set_red, merge_blue]) ''c'' =
     Some \<lparr>Value = ''red'', Timestamp = 10, NodeID = ''n1''\<rparr>"
  "GetLWW (run_calls color_store [set_red, merge_blue]) ''c'' = Some ''red''"
  "GetLWW (run_calls color_store [set_red, set_green]) ''c'' = Some ''red''"
  "GetLWW (run_calls color_store [set_green, set_red]) ''c'' = Some ''green''"
  by (simp_all add: color_store_def NewCRDTStore_def set_red_def merge_blue_def set_green_def
        SetLWW_def MergeLWW_def GetLWW_def)

text \<open>
  The register scenario: red with time 10 and blue with time 5, in either order, end
  with red.
\<close>

theorem LWW_final_register_witness:
  "lww color_store ''c'' = None \<and> set_red \<in> set [set_red, merge_blue] \<and>
   call_key set_red = ''c'' \<and>
   set [merge_blue, set_red] = set [set_red, merge_blue] \<and>
   GetLWW (run_calls color_store [set_red, merge_blue]) ''c'' = Some ''red'' \<and>
   GetLWW (run_calls color_store [merge_blue, set_red]) ''c'' = Some ''red''"
proof -
  have k: "call_key set_red = ''c''"
    by (simp add: set_red_def)
  then have ex: "\<exists>x \<in> set [set_red, merge_blue]. call_key x = ''c''"
    by simp
  have perm: "set [merge_blue, set_red] = set [set_red, merge_blue]"
    by auto
  from LWW_final_register [OF color_runs(1) ex, THEN conjunct2, THEN conjunct2]
  obtain w where w: "lww (run_calls color_store [set_red, merge_blue]) ''c'' = Some w"
    and ord: "(\<forall>x \<in> set [set_red, merge_blue].
          call_key x = ''c'' \<and> stamp (call_reg x) = stamp w \<longrightarrow>
          LWWRegister.Value (call_reg x) = LWWRegister.Value w) \<longrightarrow>
       (\<forall>calls'. set calls' = set [set_red, merge_blue] \<longrightarrow>
          GetLWW (run_calls color_store calls') ''c'' = Some (LWWRegister.Value w))"
    by blast
  have weq: "w = \<lparr>Value = ''red'', Timestamp = 10, NodeID = ''n1''\<rparr>"
    using w unfolding color_runs(2) by simp
  have "\<forall>x \<in> set [set_red, merge_blue].
          call_key x = ''c'' \<and> stamp (call_reg x) = stamp w \<longrightarrow>
          LWWRegister.Value (call_reg x) = LWWRegister.Value w"
    by (simp add: weq set_red_def merge_blue_def stamp_def)
  with ord perm have "GetLWW (run_calls color_store [merge_blue, set_red]) ''c'' =
      Some (LWWRegister.Value w)"
    by blast
  then have "GetLWW (run_calls color_store [merge_blue, set_red]) ''c'' = Some ''red''"
    by (simp add: weq)
  with color_runs(1,3) k perm show ?thesis
    by simp
qed

text \<open>
  Red and green are set with the same timestamp and the same writer. The same two calls
  end with red in one order and with green in the other.
\<close>

theorem LWW_equal_stamps_counterexample:
  "set [set_green, set_red] = set [set_red, set_green] \<and>
   call_key set_red = ''c'' \<and> call_key set_green = ''c'' \<and>
   stamp (call_reg set_red) = stamp (call_reg set_green) \<and>
   GetLWW (run_calls color_store [set_red, set_green]) ''c'' = Some ''red'' \<and>
   GetLWW (run_calls color_store [set_green, set_red]) ''c'' = Some ''green''"
proof -
  have "set [set_green, set_red] = set [set_red, set_green]"
    by auto
  moreover have "call_key set_red = ''c''" "call_key set_green = ''c''"
    "stamp (call_reg set_red) = stamp (call_reg set_green)"
    by (simp_all add: set_red_def set_green_def stamp_def)
  ultimately show ?thesis
    using color_runs(4,5) by blast
qed

end
